theory Spec2Isabelle
  imports Main "HOL-Library.Word"
begin

section \<open>Slab containers: the allocators of \<^verbatim>\<open>include/slab_containers.h\<close>\<close>

text \<open>
  The header is C++ over raw memory. The embedding keeps its fields, its order of
  statements and its checks, and fixes the following representation.

  \<^item> \<^verbatim>\<open>size_t\<close> is a 64-bit word, \<^verbatim>\<open>uint32_t\<close> a 32-bit word; \<open>+\<close> and \<open>-\<close> wrap
    as in C++, and \<^verbatim>\<open>slab->slabSize = sz\<close> truncates with \<open>ucast\<close>.
  \<^item> A slab is addressed by a \<open>slab_ptr\<close>: the stack slab embedded in the allocator
    object at address \<open>k\<close> is \<open>StackSlab k\<close>, a block handed out by the mempool at
    address \<open>h\<close> is \<open>HeapSlab h\<close>. A slot is addressed by its slab and its index in
    \<^verbatim>\<open>slab->slot[]\<close>; the back pointer \<^verbatim>\<open>slot->slab\<close>, stamped once by
    \<^verbatim>\<open>initSlab\<close> and never written again, is the first component of that pair. The
    pointer handed to the container is the slot pointer (the fixed offset
    \<^verbatim>\<open>sizeof(void *)\<close> added by \<^verbatim>\<open>allocate\<close> and subtracted by
    \<^verbatim>\<open>deallocate\<close> is left out).
  \<^item> The per-slab free list (\<^verbatim>\<open>freeHead\<close> and the \<^verbatim>\<open>storage[0]\<close> links) is the
    list of the slot indices met from \<^verbatim>\<open>freeHead\<close>, head first; \<^verbatim>\<open>NULL\<close> is \<open>[]\<close>.
  \<^item> The circular list of slabs headed by the sentinel \<^verbatim>\<open>freeSlabHeads\<close> is the list
    of the slabs met following \<^verbatim>\<open>next\<close> from the sentinel; the empty list is
    \<^verbatim>\<open>freeSlabHeads.next == &freeSlabHeads\<close>.
  \<^item> An \<^verbatim>\<open>assert\<close> that fails, and a read through \<^verbatim>\<open>NULL\<close> or through a pointer to
    a slab this allocator does not hold, end the operation with an \<open>error\<close>
    (\<open>InvalidRequest\<close> for \<^verbatim>\<open>assert(cnt == 1)\<close>, \<open>InvariantViolation\<close> for the others);
    \<open>UndefinedBehaviour\<close> is the use of a standard container with an iterator that is
    not one of its own.
\<close>

type_synonym size_t = "64 word"
type_synonym uint32_t = "32 word"

datatype error = InvalidRequest | InvariantViolation | UndefinedBehaviour

datatype slab_ptr = StackSlab nat | HeapSlab nat

type_synonym slot_ptr = "slab_ptr \<times> nat"

subsection \<open>The mempool\<close>

text \<open>
  Modelled from the spec: \<^verbatim>\<open>include/mempool.h\<close> (the base class
  \<^verbatim>\<open>pool_slab_allocator\<close> with \<^verbatim>\<open>slab_new\<close>, \<^verbatim>\<open>slab_delete\<close>,
  \<^verbatim>\<open>slab_item_allocate\<close>, \<^verbatim>\<open>slab_item_free\<close> and the pool counters) is not part of
  the sources. The spec names the counters \<open>inuse_items\<close>, \<open>free_items\<close> and \<open>slabs\<close>
  and says when each hook is called; it asks that a freshly constructed container shows
  \<open>inuse_items = 0\<close>, that \<open>inuse_items\<close> is the number of live nodes and that
  \<open>free_items\<close> is the number of free slots. Since \<^verbatim>\<open>initSlab\<close> reports every slot of
  a new node slab through \<^verbatim>\<open>slab_item_free\<close>, \<^verbatim>\<open>slab_new\<close> counts the slots of a
  new node slab as in use; the slots of a contiguous buffer (the vector's), which never
  pass through the item hooks, are counted as free; \<^verbatim>\<open>slab_delete\<close> takes the slots
  of the slab out of \<open>free_items\<close>. The counters are integers; the sizes in bytes
  (header and slot size) and the byte counters are left out, and the pool always has
  memory to give. A heap request returns the block \<open>next_block\<close>, an address never
  handed out before.
\<close>

record mempool =
  inuse_items :: int
  free_items :: int
  slabs :: int
  next_block :: nat

definition slab_new :: "size_t \<Rightarrow> bool \<Rightarrow> bool \<Rightarrow> mempool \<Rightarrow> nat \<times> mempool" where
  "slab_new count heap contiguous p =
     (next_block p,
      p\<lparr>inuse_items := (if contiguous then inuse_items p else inuse_items p + uint count),
        free_items := (if contiguous then free_items p + uint count else free_items p),
        slabs := slabs p + 1,
        next_block := (if heap then Suc (next_block p) else next_block p)\<rparr>)"

definition slab_delete :: "size_t \<Rightarrow> mempool \<Rightarrow> mempool" where
  "slab_delete count p = p\<lparr>free_items := free_items p - uint count, slabs := slabs p - 1\<rparr>"

definition slab_item_allocate :: "mempool \<Rightarrow> mempool" where
  "slab_item_allocate p = p\<lparr>inuse_items := inuse_items p + 1, free_items := free_items p - 1\<rparr>"

definition slab_item_free :: "mempool \<Rightarrow> mempool" where
  "slab_item_free p = p\<lparr>inuse_items := inuse_items p - 1, free_items := free_items p + 1\<rparr>"

subsection \<open>The node allocator \<^verbatim>\<open>slab_allocator\<close>\<close>

record slab_t =
  slabSize :: uint32_t
  freeSlots :: uint32_t
  freeHead :: "nat list"

text \<open>
  The allocator object: its own address \<open>selfPointer\<close>, the list of slabs with free
  slots, the two debug counters, and \<open>mem\<close>, the memory holding its slabs (the stack
  slab at \<open>StackSlab selfPointer\<close>, and the heap slabs it has obtained and not given
  back). The template parameters \<^verbatim>\<open>stackSize\<close> and \<^verbatim>\<open>heapSize\<close> are arguments of the
  functions that use them.
\<close>

record slab_allocator =
  selfPointer :: nat
  freeSlabHeads :: "slab_ptr list"
  freeSlotCount :: size_t
  allocSlotCount :: size_t
  mem :: "slab_ptr \<rightharpoonup> slab_t"

type_synonym state = "mempool \<times> slab_allocator"

text \<open>
  \<^verbatim>\<open>freeslot(s, freeEmpty)\<close>: push the slot on its slab's free list, count it, link
  the slab when this is its first free slot, and give an entirely free heap slab back.
  Unlinking a slab that is not on the list reads its \<^verbatim>\<open>NULL\<close> links.
\<close>

definition freeslot :: "slot_ptr \<Rightarrow> bool \<Rightarrow> state \<Rightarrow> error + state" where
  "freeslot s freeEmpty st =
     (case st of (p, a) \<Rightarrow>
       (case mem a (fst s) of
          None \<Rightarrow> Inl InvariantViolation
        | Some slab \<Rightarrow>
            let slab1 = slab\<lparr>freeHead := snd s # freeHead slab,
                              freeSlots := freeSlots slab + 1\<rparr>;
                a1 = a\<lparr>mem := (mem a)(fst s \<mapsto> slab1),
                        freeSlotCount := freeSlotCount a + 1\<rparr>;
                p1 = slab_item_free p;
                a2 = (if freeSlots slab1 = 1
                      then a1\<lparr>freeSlabHeads := fst s # freeSlabHeads a1\<rparr>
                      else a1)
            in if freeEmpty \<and> freeSlots slab1 = slabSize slab1
                    \<and> fst s \<noteq> StackSlab (selfPointer a)
               then (if fst s \<notin> set (freeSlabHeads a2) then Inl InvariantViolation
                     else if freeSlotCount a2 < ucast (slabSize slab1)
                     then Inl InvariantViolation
                     else Inr (slab_delete (ucast (freeSlots slab1)) p1,
                               a2\<lparr>freeSlabHeads := remove1 (fst s) (freeSlabHeads a2),
                                  freeSlotCount := freeSlotCount a2 - ucast (slabSize slab1),
                                  mem := (mem a2)(fst s := None)\<rparr>))
               else Inr (p1, a2)))"

text \<open>The loop of \<^verbatim>\<open>initSlab\<close>: slots \<open>i, i + 1, \<dots>, sz - 1\<close> are freed in turn.\<close>

function initSlab_loop :: "slab_ptr \<Rightarrow> nat \<Rightarrow> nat \<Rightarrow> state \<Rightarrow> error + state" where
  "initSlab_loop slab i sz st =
     (if i < sz
      then (case freeslot (slab, i) False st of
              Inl e \<Rightarrow> Inl e
            | Inr st' \<Rightarrow> initSlab_loop slab (Suc i) sz st')
      else Inr st)"
  by pat_completeness auto
termination
  by (relation "measure (\<lambda>(slab, i, sz, st). sz - i)") auto

declare initSlab_loop.simps [simp del]

definition initSlab :: "slab_ptr \<Rightarrow> size_t \<Rightarrow> state \<Rightarrow> error + state" where
  "initSlab slab sz st =
     (case st of (p, a) \<Rightarrow>
        initSlab_loop slab 0 (unat sz)
          (p, a\<lparr>mem := (mem a)(slab \<mapsto> \<lparr>slabSize = ucast sz, freeSlots = 0, freeHead = []\<rparr>)\<rparr>))"

definition addSlab :: "size_t \<Rightarrow> state \<Rightarrow> error + state" where
  "addSlab sz st =
     (case st of (p, a) \<Rightarrow>
        (case slab_new sz True False p of (blk, p1) \<Rightarrow> initSlab (HeapSlab blk) sz (p1, a)))"

text \<open>
  \<^verbatim>\<open>allocslot\<close>. With an empty list and \<^verbatim>\<open>heapSize = 0\<close> the list is still empty
  after \<^verbatim>\<open>addSlab\<close> and the sentinel would be read as a slab; a listed slab with no
  free slot would be read through its \<^verbatim>\<open>NULL\<close> \<^verbatim>\<open>freeHead\<close>.
\<close>

definition allocslot :: "size_t \<Rightarrow> state \<Rightarrow> error + slot_ptr \<times> state" where
  "allocslot heapSize st =
     (case (if freeSlabHeads (snd st) = [] then addSlab heapSize st else Inr st) of
        Inl e \<Rightarrow> Inl e
      | Inr (p, a) \<Rightarrow>
          (case freeSlabHeads a of
             [] \<Rightarrow> Inl InvariantViolation
           | freeSlab # rest \<Rightarrow>
               (case mem a freeSlab of
                  None \<Rightarrow> Inl InvariantViolation
                | Some slab \<Rightarrow>
                    (case freeHead slab of
                       [] \<Rightarrow> Inl InvariantViolation
                     | freeSlot # nxt \<Rightarrow>
                         if freeSlots slab = 0 then Inl InvariantViolation
                         else
                           let slab1 = slab\<lparr>freeHead := nxt, freeSlots := freeSlots slab - 1\<rparr>;
                               a1 = a\<lparr>mem := (mem a)(freeSlab \<mapsto> slab1)\<rparr>
                           in if freeSlots slab1 = 0 \<and> nxt \<noteq> [] then Inl InvariantViolation
                              else
                                let a2 = (if freeSlots slab1 = 0
                                          then a1\<lparr>freeSlabHeads := rest\<rparr> else a1)
                                in Inr ((freeSlab, freeSlot),
                                        slab_item_allocate p,
                                        a2\<lparr>freeSlotCount := freeSlotCount a2 - 1\<rparr>)))))"

definition reserve_internal :: "size_t \<Rightarrow> state \<Rightarrow> error + state" where
  "reserve_internal freeCount st =
     (if freeSlotCount (snd st) < freeCount
      then addSlab (freeCount - freeSlotCount (snd st)) st
      else Inr st)"

text \<open>
  The constructor of the allocator object at address \<open>self\<close>, and the public
  interface. \<open>reserve_internal\<close> is \<^verbatim>\<open>_reserve\<close>.
\<close>

definition slab_allocator_ctor :: "nat \<Rightarrow> size_t \<Rightarrow> mempool \<Rightarrow> error + state" where
  "slab_allocator_ctor self stackSize p =
     initSlab (StackSlab self) stackSize
       (snd (slab_new stackSize False False p),
        \<lparr>selfPointer = self, freeSlabHeads = [], freeSlotCount = 0,
         allocSlotCount = stackSize, mem = Map.empty\<rparr>)"

definition allocate :: "size_t \<Rightarrow> size_t \<Rightarrow> state \<Rightarrow> error + slot_ptr \<times> state" where
  "allocate heapSize cnt st = (if cnt \<noteq> 1 then Inl InvalidRequest else allocslot heapSize st)"

definition deallocate :: "slot_ptr \<Rightarrow> state \<Rightarrow> error + state" where
  "deallocate ptr st = freeslot ptr True st"

definition reserve :: "size_t \<Rightarrow> state \<Rightarrow> error + state" where
  "reserve freeCount st = reserve_internal freeCount st"

subsection \<open>Example states\<close>

text \<open>
  An empty pool, and the allocator of a container with \<^verbatim>\<open>stackSize = 4\<close> constructed at
  address 0 on it.
\<close>

definition pool0 :: mempool where
  "pool0 = \<lparr>inuse_items = 0, free_items = 0, slabs = 0, next_block = 0\<rparr>"

definition fresh4 :: state where
  "fresh4 =
     (\<lparr>inuse_items = 0, free_items = 4, slabs = 1, next_block = 0\<rparr>,
      \<lparr>selfPointer = 0, freeSlabHeads = [StackSlab 0], freeSlotCount = 4, allocSlotCount = 4,
       mem = [StackSlab 0 \<mapsto> \<lparr>slabSize = 4, freeSlots = 4, freeHead = [3, 2, 1, 0]\<rparr>]\<rparr>)"

text \<open>
  The same allocator after \<^verbatim>\<open>reserve(9)\<close> (a heap slab of five free slots at block 0),
  and after \<^verbatim>\<open>addSlab(0)\<close>.
\<close>

definition reserved9 :: state where
  "reserved9 =
     (\<lparr>inuse_items = 0, free_items = 9, slabs = 2, next_block = 1\<rparr>,
      \<lparr>selfPointer = 0, freeSlabHeads = [HeapSlab 0, StackSlab 0], freeSlotCount = 9,
       allocSlotCount = 4,
       mem = [StackSlab 0 \<mapsto> \<lparr>slabSize = 4, freeSlots = 4, freeHead = [3, 2, 1, 0]\<rparr>,
              HeapSlab 0 \<mapsto> \<lparr>slabSize = 5, freeSlots = 5, freeHead = [4, 3, 2, 1, 0]\<rparr>]\<rparr>)"

definition fresh4_empty_slab :: state where
  "fresh4_empty_slab =
     (\<lparr>inuse_items = 0, free_items = 4, slabs = 2, next_block = 1\<rparr>,
      \<lparr>selfPointer = 0, freeSlabHeads = [StackSlab 0], freeSlotCount = 4,
       allocSlotCount = 4,
       mem = [StackSlab 0 \<mapsto> \<lparr>slabSize = 4, freeSlots = 4, freeHead = [3, 2, 1, 0]\<rparr>,
              HeapSlab 0 \<mapsto> \<lparr>slabSize = 0, freeSlots = 0, freeHead = []\<rparr>]\<rparr>)"

datatype op = Allocate | Deallocate slot_ptr | Reserve size_t

definition live :: "slab_allocator \<Rightarrow> slot_ptr \<Rightarrow> bool" where
  "live a s =
     (case mem a (fst s) of
        None \<Rightarrow> False
      | Some slab \<Rightarrow> snd s < unat (slabSize slab) \<and> snd s \<notin> set (freeHead slab))"

definition apply_op :: "size_t \<Rightarrow> op \<Rightarrow> state \<Rightarrow> error + state" where
  "apply_op heapSize x st =
     (case x of
        Allocate \<Rightarrow> (case allocate heapSize 1 st of Inl e \<Rightarrow> Inl e | Inr (s, st') \<Rightarrow> Inr st')
      | Deallocate s \<Rightarrow> deallocate s st
      | Reserve n \<Rightarrow> reserve n st)"

definition permitted :: "state \<Rightarrow> op \<Rightarrow> bool" where
  "permitted st x =
     (case x of
        Allocate \<Rightarrow> True
      | Deallocate s \<Rightarrow> live (snd st) s
      | Reserve n \<Rightarrow> freeSlotCount (snd st) < n \<longrightarrow> unat (n - freeSlotCount (snd st)) < 2 ^ 32)"

inductive trace :: "size_t \<Rightarrow> size_t \<Rightarrow> nat \<Rightarrow> mempool \<Rightarrow> op list \<Rightarrow> state \<Rightarrow> bool"
  for stackSize heapSize self p0 where
  trace_ctor: "slab_allocator_ctor self stackSize p0 = Inr st \<Longrightarrow> trace stackSize heapSize self p0 [] st"
| trace_op: "trace stackSize heapSize self p0 ops st \<Longrightarrow> permitted st x \<Longrightarrow>
     apply_op heapSize x st = Inr st' \<Longrightarrow> trace stackSize heapSize self p0 (ops @ [x]) st'"

definition slab_ok :: "slab_t \<Rightarrow> bool" where
  "slab_ok slab \<longleftrightarrow>
     distinct (freeHead slab)
     \<and> (\<forall>i \<in> set (freeHead slab). i < unat (slabSize slab))
     \<and> unat (freeSlots slab) = length (freeHead slab)"

definition map_total :: "('v \<Rightarrow> nat) \<Rightarrow> ('k \<rightharpoonup> 'v) \<Rightarrow> nat" where
  "map_total f m = (\<Sum>k \<in> dom m. f (the (m k)))"

definition free_total :: "slab_allocator \<Rightarrow> nat" where
  "free_total a = map_total (\<lambda>slab. length (freeHead slab)) (mem a)"

definition slot_total :: "slab_allocator \<Rightarrow> nat" where
  "slot_total a = map_total (\<lambda>slab. unat (slabSize slab)) (mem a)"

definition alloc_inv :: "slab_allocator \<Rightarrow> bool" where
  "alloc_inv a \<longleftrightarrow>
     finite (dom (mem a))
     \<and> (\<forall>sp slab. mem a sp = Some slab \<longrightarrow> slab_ok slab)
     \<and> distinct (freeSlabHeads a)
     \<and> (\<forall>sp. sp \<in> set (freeSlabHeads a) \<longleftrightarrow> (\<exists>slab. mem a sp = Some slab \<and> freeSlots slab \<noteq> 0))
     \<and> freeSlotCount a = of_nat (free_total a)
     \<and> mem a (StackSlab (selfPointer a)) \<noteq> None
     \<and> (\<forall>k. mem a (StackSlab k) \<noteq> None \<longrightarrow> k = selfPointer a)"

definition fresh_for :: "mempool \<Rightarrow> slab_allocator \<Rightarrow> bool" where
  "fresh_for p a \<longleftrightarrow> (\<forall>h. mem a (HeapSlab h) \<noteq> None \<longrightarrow> h < next_block p)"

definition state_inv :: "state \<Rightarrow> bool" where
  "state_inv st \<longleftrightarrow> alloc_inv (snd st) \<and> fresh_for (fst st) (snd st)"

definition push_slot :: "slab_ptr \<Rightarrow> nat \<Rightarrow> slab_t \<Rightarrow> slab_allocator \<Rightarrow> slab_allocator" where
  "push_slot sp i slab a =
     a\<lparr>mem := (mem a)(sp \<mapsto> slab\<lparr>freeHead := i # freeHead slab, freeSlots := freeSlots slab + 1\<rparr>),
       freeSlotCount := freeSlotCount a + 1,
       freeSlabHeads := (if freeSlots slab + 1 = 1 then sp # freeSlabHeads a else freeSlabHeads a)\<rparr>"

definition drop_slab :: "slab_ptr \<Rightarrow> slab_t \<Rightarrow> slab_allocator \<Rightarrow> slab_allocator" where
  "drop_slab sp slab a =
     a\<lparr>freeSlabHeads := remove1 sp (freeSlabHeads a),
       freeSlotCount := freeSlotCount a - ucast (slabSize slab),
       mem := (mem a)(sp := None)\<rparr>"

definition pop_slot :: "slab_ptr \<Rightarrow> slab_t \<Rightarrow> slab_allocator \<Rightarrow> slab_allocator" where
  "pop_slot sp slab a =
     a\<lparr>mem := (mem a)(sp \<mapsto> slab\<lparr>freeHead := tl (freeHead slab), freeSlots := freeSlots slab - 1\<rparr>),
       freeSlabHeads := (if freeSlots slab - 1 = 0 then tl (freeSlabHeads a) else freeSlabHeads a),
       freeSlotCount := freeSlotCount a - 1\<rparr>"

definition take_slot :: "state \<Rightarrow> error + slot_ptr \<times> state" where
  "take_slot st =
     (case st of (p, a) \<Rightarrow>
          (case freeSlabHeads a of
             [] \<Rightarrow> Inl InvariantViolation
           | freeSlab # rest \<Rightarrow>
               (case mem a freeSlab of
                  None \<Rightarrow> Inl InvariantViolation
                | Some slab \<Rightarrow>
                    (case freeHead slab of
                       [] \<Rightarrow> Inl InvariantViolation
                     | freeSlot # nxt \<Rightarrow>
                         if freeSlots slab = 0 then Inl InvariantViolation
                         else
                           let slab1 = slab\<lparr>freeHead := nxt, freeSlots := freeSlots slab - 1\<rparr>;
                               a1 = a\<lparr>mem := (mem a)(freeSlab \<mapsto> slab1)\<rparr>
                           in if freeSlots slab1 = 0 \<and> nxt \<noteq> [] then Inl InvariantViolation
                              else
                                let a2 = (if freeSlots slab1 = 0
                                          then a1\<lparr>freeSlabHeads := rest\<rparr> else a1)
                                in Inr ((freeSlab, freeSlot),
                                        slab_item_allocate p,
                                        a2\<lparr>freeSlotCount := freeSlotCount a2 - 1\<rparr>)))))"

definition config_ok :: "size_t \<Rightarrow> size_t \<Rightarrow> bool" where
  "config_ok stackSize heapSize \<longleftrightarrow>
     unat stackSize < 2 ^ 32 \<and> heapSize \<noteq> 0 \<and> unat heapSize < 2 ^ 32"

text \<open>
  The allocator of a container with \<^verbatim>\<open>stackSize = 1\<close> on the empty pool: as constructed,
  after one allocation (the stack slab is full), after a second allocation with
  \<^verbatim>\<open>heapSize = 2\<close> (a heap slab at block 0 with one of its two slots in use), and after
  that second node has been given back.
\<close>

definition fresh1 :: state where
  "fresh1 =
     (\<lparr>inuse_items = 0, free_items = 1, slabs = 1, next_block = 0\<rparr>,
      \<lparr>selfPointer = 0, freeSlabHeads = [StackSlab 0], freeSlotCount = 1, allocSlotCount = 1,
       mem = [StackSlab 0 \<mapsto> \<lparr>slabSize = 1, freeSlots = 1, freeHead = [0]\<rparr>]\<rparr>)"

definition full1 :: state where
  "full1 =
     (\<lparr>inuse_items = 1, free_items = 0, slabs = 1, next_block = 0\<rparr>,
      \<lparr>selfPointer = 0, freeSlabHeads = [], freeSlotCount = 0, allocSlotCount = 1,
       mem = [StackSlab 0 \<mapsto> \<lparr>slabSize = 1, freeSlots = 0, freeHead = []\<rparr>]\<rparr>)"

definition two1 :: state where
  "two1 =
     (\<lparr>inuse_items = 2, free_items = 1, slabs = 2, next_block = 1\<rparr>,
      \<lparr>selfPointer = 0, freeSlabHeads = [HeapSlab 0], freeSlotCount = 1, allocSlotCount = 1,
       mem = [StackSlab 0 \<mapsto> \<lparr>slabSize = 1, freeSlots = 0, freeHead = []\<rparr>,
              HeapSlab 0 \<mapsto> \<lparr>slabSize = 2, freeSlots = 1, freeHead = [0]\<rparr>]\<rparr>)"

definition full1_again :: state where
  "full1_again =
     (\<lparr>inuse_items = 1, free_items = 0, slabs = 1, next_block = 1\<rparr>,
      \<lparr>selfPointer = 0, freeSlabHeads = [], freeSlotCount = 0, allocSlotCount = 1,
       mem = [StackSlab 0 \<mapsto> \<lparr>slabSize = 1, freeSlots = 0, freeHead = []\<rparr>]\<rparr>)"

text \<open>
  The slab that the next allocation draws from is a heap slab none of whose slots is in
  use.
\<close>

definition head_slab_idle :: "slab_allocator \<Rightarrow> bool" where
  "head_slab_idle a =
     (case freeSlabHeads a of
        [] \<Rightarrow> False
      | sp # rest \<Rightarrow>
          sp \<noteq> StackSlab (selfPointer a)
          \<and> (case mem a sp of None \<Rightarrow> False | Some slab \<Rightarrow> freeSlots slab = slabSize slab))"

text \<open>
  The state \<open>reserved9\<close> after one allocation, and after that node has been given back.
\<close>

definition reserved9_taken :: state where
  "reserved9_taken =
     (\<lparr>inuse_items = 1, free_items = 8, slabs = 2, next_block = 1\<rparr>,
      \<lparr>selfPointer = 0, freeSlabHeads = [HeapSlab 0, StackSlab 0], freeSlotCount = 8,
       allocSlotCount = 4,
       mem = [StackSlab 0 \<mapsto> \<lparr>slabSize = 4, freeSlots = 4, freeHead = [3, 2, 1, 0]\<rparr>,
              HeapSlab 0 \<mapsto> \<lparr>slabSize = 5, freeSlots = 4, freeHead = [3, 2, 1, 0]\<rparr>]\<rparr>)"

definition fresh4_again :: state where
  "fresh4_again =
     (\<lparr>inuse_items = 0, free_items = 4, slabs = 1, next_block = 1\<rparr>,
      \<lparr>selfPointer = 0, freeSlabHeads = [StackSlab 0], freeSlotCount = 4, allocSlotCount = 4,
       mem = [StackSlab 0 \<mapsto> \<lparr>slabSize = 4, freeSlots = 4, freeHead = [3, 2, 1, 0]\<rparr>]\<rparr>)"

subsection \<open>The vector allocator \<^verbatim>\<open>slab_vector_allocator\<close>\<close>

text \<open>
  The object at address \<open>this\<close> holds only the inline array \<^verbatim>\<open>stackSlot[stackSize]\<close>; a
  buffer pointer is that array (\<open>StackSlot this\<close>) or a block of the mempool. Neither
  \<^verbatim>\<open>allocate\<close> nor \<^verbatim>\<open>deallocate\<close> writes to the object, so the only state is the pool.
\<close>

datatype vec_ptr = StackSlot nat | HeapBlock nat

definition slab_vector_allocator_ctor :: "size_t \<Rightarrow> mempool \<Rightarrow> mempool" where
  "slab_vector_allocator_ctor stackSize p = snd (slab_new stackSize False True p)"

definition slab_vector_allocator_allocate ::
    "size_t \<Rightarrow> nat \<Rightarrow> size_t \<Rightarrow> mempool \<Rightarrow> vec_ptr \<times> mempool" where
  "slab_vector_allocator_allocate stackSize this cnt p =
     (if cnt \<le> stackSize then (StackSlot this, p)
      else (case slab_new cnt True True p of (blk, p') \<Rightarrow> (HeapBlock blk, p')))"

definition slab_vector_allocator_deallocate ::
    "nat \<Rightarrow> vec_ptr \<Rightarrow> size_t \<Rightarrow> mempool \<Rightarrow> mempool" where
  "slab_vector_allocator_deallocate this ptr s p =
     (if ptr \<noteq> StackSlot this then slab_delete s p else p)"

text \<open>
  For a container that never reserves: every heap slab has a slot in use, the operations
  are allocations and deallocations only, and \<^verbatim>\<open>clear()\<close> deallocates the nodes of the
  container one after the other. \<open>clear_inv\<close> is the invariant of such a run; it ties
  the pool's \<open>inuse_items\<close> to the slots in use.
\<close>

definition no_idle_heap_slab :: "slab_allocator \<Rightarrow> bool" where
  "no_idle_heap_slab a \<longleftrightarrow>
     (\<forall>h slab. mem a (HeapSlab h) = Some slab \<longrightarrow> freeSlots slab \<noteq> slabSize slab)"

definition no_reserve :: "op list \<Rightarrow> bool" where
  "no_reserve ops \<longleftrightarrow> (\<forall>n. Reserve n \<notin> set ops)"

fun deallocate_all :: "slot_ptr list \<Rightarrow> state \<Rightarrow> error + state" where
  "deallocate_all [] st = Inr st"
| "deallocate_all (s # ss) st =
     (case deallocate s st of Inl e \<Rightarrow> Inl e | Inr st' \<Rightarrow> deallocate_all ss st')"

definition clear_inv :: "mempool \<Rightarrow> state \<Rightarrow> bool" where
  "clear_inv p0 st \<longleftrightarrow>
     state_inv st \<and> no_idle_heap_slab (snd st)
     \<and> inuse_items (fst st) + int (free_total (snd st))
         = inuse_items p0 + int (slot_total (snd st))"

text \<open>
  The pool's share of one allocator, for every run: \<open>free_items\<close> counts the free slots of
  the allocator and \<open>slabs\<close> the slabs it holds, on top of their values \<open>p0\<close> before the
  allocator was constructed; the inline slab keeps the size the constructor gave it.
\<close>

definition pool_inv :: "mempool \<Rightarrow> state \<Rightarrow> bool" where
  "pool_inv p0 st \<longleftrightarrow>
     free_items (fst st) = free_items p0 + int (free_total (snd st))
     \<and> slabs (fst st) = slabs p0 + int (card (dom (mem (snd st))))
     \<and> (\<exists>slab. mem (snd st) (StackSlab (selfPointer (snd st))) = Some slab
            \<and> slabSize slab = ucast (allocSlotCount (snd st)))"

subsection \<open>The list wrapper \<^verbatim>\<open>slab_list\<close>\<close>

text \<open>
  \<^verbatim>\<open>std::list\<close> belongs to the standard library. It is represented by what it does
  with its allocator and with its sequence of nodes: a node is the slot the allocator
  gave for it together with the value stored there, and the allocator is the list's
  first member. An iterator is the node it points to, or \<open>None\<close> for \<^verbatim>\<open>end()\<close>. The list
  objects live in a store indexed by their addresses, next to the pool they share, so
  that a method called with the list itself as its argument works on one object.
\<close>

type_synonym iterator = "slot_ptr option"

record 'a slab_list =
  alloc :: slab_allocator
  nodes :: "(slot_ptr \<times> 'a) list"

record 'a world =
  pool :: mempool
  objs :: "nat \<Rightarrow> 'a slab_list"

primrec index_of :: "slot_ptr \<Rightarrow> (slot_ptr \<times> 'a) list \<Rightarrow> nat option" where
  "index_of q [] = None"
| "index_of q (n # ns) = (if fst n = q then Some 0 else map_option Suc (index_of q ns))"

definition position :: "(slot_ptr \<times> 'a) list \<Rightarrow> iterator \<Rightarrow> nat option" where
  "position ns it = (case it of None \<Rightarrow> Some (length ns) | Some q \<Rightarrow> index_of q ns)"

definition iterator_at :: "(slot_ptr \<times> 'a) list \<Rightarrow> nat \<Rightarrow> iterator" where
  "iterator_at ns k = (if k < length ns then Some (fst (ns ! k)) else None)"

definition list_begin :: "'a slab_list \<Rightarrow> iterator" where
  "list_begin l = iterator_at (nodes l) 0"

definition list_next :: "'a slab_list \<Rightarrow> iterator \<Rightarrow> error + iterator" where
  "list_next l it =
     (case it of
        None \<Rightarrow> Inl UndefinedBehaviour
      | Some q \<Rightarrow>
          (case index_of q (nodes l) of
             None \<Rightarrow> Inl UndefinedBehaviour
           | Some k \<Rightarrow> Inr (iterator_at (nodes l) (Suc k))))"

definition list_deref :: "'a slab_list \<Rightarrow> iterator \<Rightarrow> error + 'a" where
  "list_deref l it =
     (case it of
        None \<Rightarrow> Inl UndefinedBehaviour
      | Some q \<Rightarrow>
          (case index_of q (nodes l) of
             None \<Rightarrow> Inl UndefinedBehaviour
           | Some k \<Rightarrow> Inr (snd (nodes l ! k))))"

definition list_insert ::
    "size_t \<Rightarrow> nat \<Rightarrow> iterator \<Rightarrow> 'a \<Rightarrow> 'a world \<Rightarrow> error + iterator \<times> 'a world" where
  "list_insert heapSize this pos x w =
     (case position (nodes (objs w this)) pos of
        None \<Rightarrow> Inl UndefinedBehaviour
      | Some k \<Rightarrow>
          (case allocate heapSize 1 (pool w, alloc (objs w this)) of
             Inl e \<Rightarrow> Inl e
           | Inr (s, p', a') \<Rightarrow>
               Inr (Some s,
                    w\<lparr>pool := p',
                      objs := (objs w)(this :=
                        \<lparr>alloc = a',
                         nodes = take k (nodes (objs w this)) @ (s, x)
                                   # drop k (nodes (objs w this))\<rparr>)\<rparr>)))"

definition list_erase :: "nat \<Rightarrow> iterator \<Rightarrow> 'a world \<Rightarrow> error + iterator \<times> 'a world" where
  "list_erase this it w =
     (case it of
        None \<Rightarrow> Inl UndefinedBehaviour
      | Some q \<Rightarrow>
          (case index_of q (nodes (objs w this)) of
             None \<Rightarrow> Inl UndefinedBehaviour
           | Some k \<Rightarrow>
               (case deallocate q (pool w, alloc (objs w this)) of
                  Inl e \<Rightarrow> Inl e
                | Inr (p', a') \<Rightarrow>
                    Inr (iterator_at (nodes (objs w this)) (Suc k),
                         w\<lparr>pool := p',
                           objs := (objs w)(this :=
                             \<lparr>alloc = a',
                              nodes = take k (nodes (objs w this))
                                        @ drop (Suc k) (nodes (objs w this))\<rparr>)\<rparr>))))"

definition list_push_back :: "size_t \<Rightarrow> nat \<Rightarrow> 'a \<Rightarrow> 'a world \<Rightarrow> error + 'a world" where
  "list_push_back heapSize this x w =
     (case list_insert heapSize this None x w of Inl e \<Rightarrow> Inl e | Inr (it, w') \<Rightarrow> Inr w')"

definition list_clear :: "nat \<Rightarrow> 'a world \<Rightarrow> error + 'a world" where
  "list_clear this w =
     (case deallocate_all (map fst (nodes (objs w this))) (pool w, alloc (objs w this)) of
        Inl e \<Rightarrow> Inl e
      | Inr (p', a') \<Rightarrow>
          Inr (w\<lparr>pool := p', objs := (objs w)(this := \<lparr>alloc = a', nodes = []\<rparr>)\<rparr>))"

text \<open>
  The methods of \<^verbatim>\<open>slab_list\<close>. A loop over iterators ends when it meets its end
  iterator, which it need not do when both lists are the same object; such a loop
  returns \<open>None\<close> when it runs forever. \<open>copy_loop\<close> is the range-for of \<^verbatim>\<open>copy\<close>,
  \<open>splice_loop\<close> the loop of the four-argument \<^verbatim>\<open>splice\<close>, and \<open>swap_loop\<close> each of
  the first and the second loop of \<^verbatim>\<open>swap\<close> (they differ only in which list gives and
  which takes).
  A loop of \<^verbatim>\<open>swap\<close> also records the states it passes through, one after each of the
  two statements of the body; \<open>slab_list_swap_steps\<close> is the method with these states
  and \<open>slab_list_swap\<close> the method alone.
\<close>

partial_function (option) copy_loop ::
    "size_t \<Rightarrow> nat \<Rightarrow> nat \<Rightarrow> iterator \<Rightarrow> 'a world \<Rightarrow> (error + 'a world) option" where
  "copy_loop heapSize this other it w =
     (if it = None then Some (Inr w)
      else (case list_deref (objs w other) it of
              Inl e \<Rightarrow> Some (Inl e)
            | Inr x \<Rightarrow>
                (case list_push_back heapSize this x w of
                   Inl e \<Rightarrow> Some (Inl e)
                 | Inr w1 \<Rightarrow>
                     (case list_next (objs w1 other) it of
                        Inl e \<Rightarrow> Some (Inl e)
                      | Inr it' \<Rightarrow> copy_loop heapSize this other it' w1))))"

definition slab_list_copy :: "size_t \<Rightarrow> nat \<Rightarrow> nat \<Rightarrow> 'a world \<Rightarrow> (error + 'a world) option" where
  "slab_list_copy heapSize this other w =
     (case list_clear this w of
        Inl e \<Rightarrow> Some (Inl e)
      | Inr w1 \<Rightarrow> copy_loop heapSize this other (list_begin (objs w1 other)) w1)"

definition slab_list_assign :: "size_t \<Rightarrow> nat \<Rightarrow> nat \<Rightarrow> 'a world \<Rightarrow> (error + 'a world) option" where
  "slab_list_assign heapSize this other w = slab_list_copy heapSize this other w"

partial_function (option) splice_loop ::
    "size_t \<Rightarrow> nat \<Rightarrow> iterator \<Rightarrow> nat \<Rightarrow> iterator \<Rightarrow> iterator \<Rightarrow> 'a world
       \<Rightarrow> (error + 'a world) option" where
  "splice_loop heapSize this pos other first last' w =
     (if first = last' then Some (Inr w)
      else (case list_deref (objs w other) first of
              Inl e \<Rightarrow> Some (Inl e)
            | Inr x \<Rightarrow>
                (case list_insert heapSize this pos x w of
                   Inl e \<Rightarrow> Some (Inl e)
                 | Inr (it, w1) \<Rightarrow>
                     (case list_next (objs w1 this) it of
                        Inl e \<Rightarrow> Some (Inl e)
                      | Inr pos' \<Rightarrow>
                          (case list_erase other first w1 of
                             Inl e \<Rightarrow> Some (Inl e)
                           | Inr (first', w2) \<Rightarrow>
                               splice_loop heapSize this pos' other first' last' w2)))))"

definition slab_list_splice ::
    "size_t \<Rightarrow> nat \<Rightarrow> iterator \<Rightarrow> nat \<Rightarrow> iterator \<Rightarrow> iterator \<Rightarrow> 'a world
       \<Rightarrow> (error + 'a world) option" where
  "slab_list_splice heapSize this pos other first last' w =
     splice_loop heapSize this pos other first last' w"

partial_function (option) swap_loop ::
    "size_t \<Rightarrow> nat \<Rightarrow> nat \<Rightarrow> iterator \<Rightarrow> iterator \<Rightarrow> 'a world list \<Rightarrow> 'a world
       \<Rightarrow> (error + 'a world list \<times> 'a world) option" where
  "swap_loop heapSize dst src first last' steps w =
     (if first = last' then Some (Inr (steps, w))
      else (case list_deref (objs w src) first of
              Inl e \<Rightarrow> Some (Inl e)
            | Inr x \<Rightarrow>
                (case list_push_back heapSize dst x w of
                   Inl e \<Rightarrow> Some (Inl e)
                 | Inr w1 \<Rightarrow>
                     (case list_erase src first w1 of
                        Inl e \<Rightarrow> Some (Inl e)
                      | Inr (first', w2) \<Rightarrow>
                          swap_loop heapSize dst src first' last' (steps @ [w1, w2]) w2))))"

definition slab_list_swap_steps ::
    "size_t \<Rightarrow> nat \<Rightarrow> nat \<Rightarrow> 'a world \<Rightarrow> (error + 'a world list \<times> 'a world) option" where
  "slab_list_swap_steps heapSize this other w =
     (let ofirst = list_begin (objs w other); olast = None;
          mfirst = list_begin (objs w this); mlast = None
      in case swap_loop heapSize this other ofirst olast [] w of
           None \<Rightarrow> None
         | Some (Inl e) \<Rightarrow> Some (Inl e)
         | Some (Inr (steps, w1)) \<Rightarrow> swap_loop heapSize other this mfirst mlast steps w1)"

definition slab_list_swap :: "size_t \<Rightarrow> nat \<Rightarrow> nat \<Rightarrow> 'a world \<Rightarrow> (error + 'a world) option" where
  "slab_list_swap heapSize this other w =
     (case slab_list_swap_steps heapSize this other w of
        None \<Rightarrow> None
      | Some (Inl e) \<Rightarrow> Some (Inl e)
      | Some (Inr (steps, w')) \<Rightarrow> Some (Inr w'))"

text \<open>
  A list is consistent in a pool, \<open>list_ok\<close>, when its allocator satisfies the invariant
  of the allocator there and its nodes are distinct slots of that allocator, all in use.
  The constructor gives such a list; \<^verbatim>\<open>insert\<close> and \<^verbatim>\<open>erase\<close> keep it so.
\<close>

definition list_ok :: "mempool \<Rightarrow> 'a slab_list \<Rightarrow> bool" where
  "list_ok p l \<longleftrightarrow>
     state_inv (p, alloc l) \<and> distinct (map fst (nodes l))
     \<and> (\<forall>q \<in> set (map fst (nodes l)). live (alloc l) q)"

text \<open>
  Two lists of \<^verbatim>\<open>int\<close> with \<^verbatim>\<open>stackSize = 1\<close> and \<^verbatim>\<open>heapSize = 2\<close>: \<open>b\<close> at address 0 holds
  1 and 2 (its allocator is that of \<open>two1\<close>: the first node in the inline slab, the second
  in a heap slab), \<open>c\<close> at address 1 is empty. Memory that holds no list is \<open>raw_list\<close>.
\<close>

definition raw_list :: "nat \<Rightarrow> 'a slab_list" where
  "raw_list this =
     \<lparr>alloc = \<lparr>selfPointer = this, freeSlabHeads = [], freeSlotCount = 0, allocSlotCount = 0,
               mem = Map.empty\<rparr>,
      nodes = []\<rparr>"

definition slab_list_ctor :: "size_t \<Rightarrow> nat \<Rightarrow> 'a world \<Rightarrow> error + 'a world" where
  "slab_list_ctor stackSize this w =
     (case slab_allocator_ctor this stackSize (pool w) of
        Inl e \<Rightarrow> Inl e
      | Inr (p', a') \<Rightarrow>
          Inr (w\<lparr>pool := p', objs := (objs w)(this := \<lparr>alloc = a', nodes = []\<rparr>)\<rparr>))"

definition fresh1_at1 :: slab_allocator where
  "fresh1_at1 =
     \<lparr>selfPointer = 1, freeSlabHeads = [StackSlab 1], freeSlotCount = 1, allocSlotCount = 1,
      mem = [StackSlab 1 \<mapsto> \<lparr>slabSize = 1, freeSlots = 1, freeHead = [0]\<rparr>]\<rparr>"

definition pool_bc :: mempool where
  "pool_bc = \<lparr>inuse_items = 2, free_items = 2, slabs = 3, next_block = 1\<rparr>"

definition world_bc :: "int world" where
  "world_bc =
     \<lparr>pool = pool_bc,
      objs = raw_list
        (0 := \<lparr>alloc = snd two1, nodes = [((StackSlab 0, 0), 1), ((HeapSlab 0, 1), 2)]\<rparr>,
         1 := \<lparr>alloc = fresh1_at1, nodes = []\<rparr>)\<rparr>"

text \<open>
  \<open>world_bc\<close> after the first statement of \<^verbatim>\<open>c.swap(b)\<close>, the \<^verbatim>\<open>push_back\<close> of the first
  element of \<open>b\<close> onto \<open>c\<close>: the node is copied and not yet erased from \<open>b\<close>.
\<close>

definition world_bc_pushed :: "int world" where
  "world_bc_pushed =
     \<lparr>pool = \<lparr>inuse_items = 3, free_items = 1, slabs = 3, next_block = 1\<rparr>,
      objs = raw_list
        (0 := \<lparr>alloc = snd two1, nodes = [((StackSlab 0, 0), 1), ((HeapSlab 0, 1), 2)]\<rparr>,
         1 := \<lparr>alloc = \<lparr>selfPointer = 1, freeSlabHeads = [], freeSlotCount = 0,
                        allocSlotCount = 1,
                        mem = [StackSlab 1 \<mapsto> \<lparr>slabSize = 1, freeSlots = 0, freeHead = []\<rparr>]\<rparr>,
               nodes = [((StackSlab 1, 0), 1)]\<rparr>)\<rparr>"

subsection \<open>The vector wrapper \<^verbatim>\<open>slab_vector\<close>\<close>

text \<open>
  \<^verbatim>\<open>std::vector\<close> belongs to the standard library. It is represented by its buffer
  pointer (none before the first allocation), its capacity and its elements; the vectors
  live in a store indexed by their addresses, next to the pool. \<^verbatim>\<open>reserve\<close> allocates a
  buffer only for a request above the capacity and then gives the old buffer back;
  \<^verbatim>\<open>push_back\<close> on a full vector first doubles the capacity; \<^verbatim>\<open>clear\<close> keeps the buffer.
  The range-for of \<^verbatim>\<open>operator=\<close> runs over the elements that \<^verbatim>\<open>rhs\<close> has when the loop
  starts, which is after the \<^verbatim>\<open>clear\<close> of \<^verbatim>\<open>this\<close>.
\<close>

record 'a slab_vector =
  vdata :: "vec_ptr option"
  vcapacity :: nat
  velems :: "'a list"

record 'a vworld =
  vpool :: mempool
  vecs :: "nat \<Rightarrow> 'a slab_vector"

definition vector_reserve :: "size_t \<Rightarrow> nat \<Rightarrow> nat \<Rightarrow> 'a vworld \<Rightarrow> 'a vworld" where
  "vector_reserve stackSize this n w =
     (let v = vecs w this in
      if n \<le> vcapacity v then w
      else (case slab_vector_allocator_allocate stackSize this (of_nat n) (vpool w) of
              (ptr, p1) \<Rightarrow>
                (let p2 = (case vdata v of
                             None \<Rightarrow> p1
                           | Some old \<Rightarrow>
                               slab_vector_allocator_deallocate this old
                                 (of_nat (vcapacity v)) p1)
                 in w\<lparr>vpool := p2,
                      vecs := (vecs w)(this := v\<lparr>vdata := Some ptr, vcapacity := n\<rparr>)\<rparr>)))"

definition vector_clear :: "nat \<Rightarrow> 'a vworld \<Rightarrow> 'a vworld" where
  "vector_clear this w = w\<lparr>vecs := (vecs w)(this := (vecs w this)\<lparr>velems := []\<rparr>)\<rparr>"

definition vector_push_back :: "size_t \<Rightarrow> nat \<Rightarrow> 'a \<Rightarrow> 'a vworld \<Rightarrow> 'a vworld" where
  "vector_push_back stackSize this x w =
     (let v = vecs w this;
          w1 = (if length (velems v) = vcapacity v
                then vector_reserve stackSize this (max 1 (2 * vcapacity v)) w else w)
      in w1\<lparr>vecs := (vecs w1)(this := (vecs w1 this)\<lparr>velems := velems (vecs w1 this) @ [x]\<rparr>)\<rparr>)"

definition slab_vector_ctor :: "size_t \<Rightarrow> nat \<Rightarrow> 'a vworld \<Rightarrow> 'a vworld" where
  "slab_vector_ctor stackSize this w =
     vector_reserve stackSize this (unat stackSize)
       (w\<lparr>vpool := slab_vector_allocator_ctor stackSize (vpool w),
          vecs := (vecs w)(this := \<lparr>vdata = None, vcapacity = 0, velems = []\<rparr>)\<rparr>)"

definition slab_vector_assign :: "size_t \<Rightarrow> nat \<Rightarrow> nat \<Rightarrow> 'a vworld \<Rightarrow> 'a vworld" where
  "slab_vector_assign stackSize this rhs w =
     (let w1 = vector_reserve stackSize this (length (velems (vecs w rhs))) w;
          w2 = vector_clear this w1
      in fold (vector_push_back stackSize this) (velems (vecs w2 rhs)) w2)"

text \<open>
  A vector of \<^verbatim>\<open>int\<close> with \<^verbatim>\<open>stackSize = 4\<close> at address 0, constructed on the empty pool,
  after \<^verbatim>\<open>push_back\<close> of 1, 2 and 3.
\<close>

definition raw_vector :: "nat \<Rightarrow> 'a slab_vector" where
  "raw_vector this = \<lparr>vdata = None, vcapacity = 0, velems = []\<rparr>"

definition vworld_123 :: "int vworld" where
  "vworld_123 =
     \<lparr>vpool = \<lparr>inuse_items = 0, free_items = 4, slabs = 1, next_block = 0\<rparr>,
      vecs = raw_vector(0 := \<lparr>vdata = Some (StackSlot 0), vcapacity = 4, velems = [1, 2, 3]\<rparr>)\<rparr>"

section \<open>The effect of \<^verbatim>\<open>initSlab\<close> and \<^verbatim>\<open>addSlab\<close>\<close>

lemma freeslot_False:
  assumes "mem a sp = Some slab"
  shows "freeslot (sp, i) False (p, a) =
    Inr (slab_item_free p,
         a\<lparr>mem := (mem a)(sp \<mapsto> slab\<lparr>freeHead := i # freeHead slab, freeSlots := freeSlots slab + 1\<rparr>),
           freeSlotCount := freeSlotCount a + 1,
           freeSlabHeads := (if freeSlots slab + 1 = 1 then sp # freeSlabHeads a else freeSlabHeads a)\<rparr>)"
  using assms by (simp add: freeslot_def Let_def)

lemma initSlab_loop_general:
  assumes "mem a sp = Some slab"
  shows "\<exists>p' a' m. initSlab_loop sp i n (p, a) = Inr (p', a')
     \<and> mem a' = (mem a)(sp \<mapsto> slab\<lparr>freeHead := rev [i..<n] @ freeHead slab,
                                      freeSlots := freeSlots slab + of_nat (n - i)\<rparr>)
     \<and> freeSlotCount a' = freeSlotCount a + of_nat (n - i)
     \<and> allocSlotCount a' = allocSlotCount a
     \<and> selfPointer a' = selfPointer a
     \<and> freeSlabHeads a' = replicate m sp @ freeSlabHeads a
     \<and> inuse_items p' = inuse_items p - int (n - i)
     \<and> free_items p' = free_items p + int (n - i)
     \<and> slabs p' = slabs p \<and> next_block p' = next_block p"
  using assms
proof (induction "n - i" arbitrary: i p a slab)
  case 0
  then show ?case
    by (auto simp: initSlab_loop.simps[of sp i n] intro: exI[of _ 0])
next
  case (Suc k)
  then have lt: "i < n" and k: "k = n - Suc i" by auto
  let ?slab1 = "slab\<lparr>freeHead := i # freeHead slab, freeSlots := freeSlots slab + 1\<rparr>"
  let ?a1 = "a\<lparr>mem := (mem a)(sp \<mapsto> ?slab1),
           freeSlotCount := freeSlotCount a + 1,
           freeSlabHeads := (if freeSlots slab + 1 = 1 then sp # freeSlabHeads a else freeSlabHeads a)\<rparr>"
  have m1: "mem ?a1 sp = Some ?slab1" by simp
  from Suc.hyps(1)[OF k m1, of "slab_item_free p"]
  obtain p' a' m where r: "initSlab_loop sp (Suc i) n (slab_item_free p, ?a1) = Inr (p', a')"
     and rest: "mem a' = (mem ?a1)(sp \<mapsto> ?slab1\<lparr>freeHead := rev [Suc i..<n] @ freeHead ?slab1,
                                      freeSlots := freeSlots ?slab1 + of_nat (n - Suc i)\<rparr>)"
      "freeSlotCount a' = freeSlotCount ?a1 + of_nat (n - Suc i)"
      "allocSlotCount a' = allocSlotCount ?a1"
      "selfPointer a' = selfPointer ?a1"
      "freeSlabHeads a' = replicate m sp @ freeSlabHeads ?a1"
      "inuse_items p' = inuse_items (slab_item_free p) - int (n - Suc i)"
      "free_items p' = free_items (slab_item_free p) + int (n - Suc i)"
      "slabs p' = slabs (slab_item_free p)" "next_block p' = next_block (slab_item_free p)"
    by blast
  have step: "initSlab_loop sp i n (p, a) = Inr (p', a')"
    using lt r by (simp add: initSlab_loop.simps[of sp i n "(p, a)"] freeslot_False[OF Suc.prems])
  have up: "[i..<n] = i # [Suc i..<n]" using lt by (simp add: upt_conv_Cons)
  have cnt: "n - i = Suc (n - Suc i)" using lt by simp
  show ?case
  proof (cases "freeSlots slab + 1 = 1")
    case True
    show ?thesis
      apply (rule exI[of _ p'], rule exI[of _ a'], rule exI[of _ "Suc m"])
      using step rest True up cnt
      by (simp add: slab_item_free_def replicate_app_Cons_same)
  next
    case False
    show ?thesis
      apply (rule exI[of _ p'], rule exI[of _ a'], rule exI[of _ m])
      using step rest False up cnt
      by (simp add: slab_item_free_def)
  qed
qed

lemma initSlab_loop_links:
  assumes "mem a sp = Some slab"
  shows "\<exists>p' a' m. initSlab_loop sp i n (p, a) = Inr (p', a')
     \<and> freeSlabHeads a' = replicate m sp @ freeSlabHeads a
     \<and> (freeSlots slab = 0 \<and> i < n \<longrightarrow> 0 < m)
     \<and> (unat (freeSlots slab) + (n - i) < 2 ^ 32 \<longrightarrow> m = (if freeSlots slab = 0 \<and> i < n then 1 else 0))"
  using assms
proof (induction "n - i" arbitrary: i p a slab)
  case 0
  then show ?case
    by (auto simp: initSlab_loop.simps[of sp i n] intro: exI[of _ 0])
next
  case (Suc k)
  then have lt: "i < n" and k: "k = n - Suc i" by auto
  let ?slab1 = "slab\<lparr>freeHead := i # freeHead slab, freeSlots := freeSlots slab + 1\<rparr>"
  let ?a1 = "a\<lparr>mem := (mem a)(sp \<mapsto> ?slab1),
           freeSlotCount := freeSlotCount a + 1,
           freeSlabHeads := (if freeSlots slab + 1 = 1 then sp # freeSlabHeads a else freeSlabHeads a)\<rparr>"
  have m1: "mem ?a1 sp = Some ?slab1" by simp
  from Suc.hyps(1)[OF k m1, of "slab_item_free p"]
  obtain p' a' m where r: "initSlab_loop sp (Suc i) n (slab_item_free p, ?a1) = Inr (p', a')"
     and rest: "freeSlabHeads a' = replicate m sp @ freeSlabHeads ?a1"
      "unat (freeSlots ?slab1) + (n - Suc i) < 2 ^ 32 \<longrightarrow> m = (if freeSlots ?slab1 = 0 \<and> Suc i < n then 1 else 0)"
    by blast
  have step: "initSlab_loop sp i n (p, a) = Inr (p', a')"
    using lt r by (simp add: initSlab_loop.simps[of sp i n "(p, a)"] freeslot_False[OF Suc.prems])
  have cnt: "n - i = Suc (n - Suc i)" using lt by simp
  show ?case
  proof (cases "freeSlots slab = 0")
    case True
    have "unat (0::32 word) + (n - i) < 2 ^ 32 \<longrightarrow> m = 0"
      using rest(2) True cnt by simp
    then show ?thesis
      apply (intro exI[of _ p'] exI[of _ a'] exI[of _ "Suc m"])
      using step rest(1) True lt
      by (simp add: replicate_app_Cons_same)
  next
    case False
    have nowrap: "unat (freeSlots slab) + (n - i) < 2 ^ 32 \<Longrightarrow> freeSlots slab + 1 \<noteq> 0"
    proof -
      assume "unat (freeSlots slab) + (n - i) < 2 ^ 32"
      then have "unat (freeSlots slab) + 1 < 2 ^ 32" using lt by simp
      then have "unat (freeSlots slab + 1) = unat (freeSlots slab) + 1"
        by (simp add: unat_word_ariths)
      then show ?thesis by (metis Suc_eq_plus1 nat.distinct(1) unat_0)
    qed
    have "unat (freeSlots slab) + (n - i) < 2 ^ 32 \<longrightarrow> m = 0"
    proof
      assume b: "unat (freeSlots slab) + (n - i) < 2 ^ 32"
      then have "unat (freeSlots slab) + 1 < 2 ^ 32" using lt by simp
      then have "unat (freeSlots slab + 1) = unat (freeSlots slab) + 1"
        by (simp add: unat_word_ariths)
      with b cnt have "unat (freeSlots ?slab1) + (n - Suc i) < 2 ^ 32" by simp
      with rest(2) nowrap[OF b] show "m = 0" by simp
    qed
    moreover have "freeSlots slab + 1 \<noteq> 1" using False by simp
    ultimately show ?thesis
      apply (intro exI[of _ p'] exI[of _ a'] exI[of _ m])
      using step rest(1) False
      by simp
  qed
qed

lemma addSlab_result:
  "\<exists>p' a' m. addSlab sz (p, a) = Inr (p', a')
     \<and> mem a' = (mem a)(HeapSlab (next_block p) \<mapsto>
                     \<lparr>slabSize = ucast sz, freeSlots = ucast sz, freeHead = rev [0..<unat sz]\<rparr>)
     \<and> freeSlotCount a' = freeSlotCount a + sz
     \<and> allocSlotCount a' = allocSlotCount a
     \<and> selfPointer a' = selfPointer a
     \<and> freeSlabHeads a' = replicate m (HeapSlab (next_block p)) @ freeSlabHeads a
     \<and> (sz \<noteq> 0 \<longrightarrow> 0 < m)
     \<and> (unat sz < 2 ^ 32 \<longrightarrow> m = (if sz = 0 then 0 else 1))
     \<and> inuse_items p' = inuse_items p
     \<and> free_items p' = free_items p + uint sz
     \<and> slabs p' = slabs p + 1 \<and> next_block p' = Suc (next_block p)"
proof -
  let ?sp = "HeapSlab (next_block p)"
  let ?slab = "\<lparr>slabSize = ucast sz, freeSlots = 0, freeHead = []\<rparr> :: slab_t"
  let ?a0 = "a\<lparr>mem := (mem a)(?sp \<mapsto> ?slab)\<rparr>"
  let ?p1 = "p\<lparr>inuse_items := inuse_items p + uint sz, free_items := free_items p,
               slabs := slabs p + 1, next_block := Suc (next_block p)\<rparr>"
  have unf: "addSlab sz (p, a) = initSlab_loop ?sp 0 (unat sz) (?p1, ?a0)"
    by (simp add: addSlab_def slab_new_def initSlab_def)
  have m0: "mem ?a0 ?sp = Some ?slab" by simp
  from initSlab_loop_general[OF m0, of 0 "unat sz" ?p1]
  obtain p' a' where g: "initSlab_loop ?sp 0 (unat sz) (?p1, ?a0) = Inr (p', a')"
    "mem a' = (mem ?a0)(?sp \<mapsto> ?slab\<lparr>freeHead := rev [0..<unat sz] @ freeHead ?slab,
                                      freeSlots := freeSlots ?slab + of_nat (unat sz - 0)\<rparr>)"
    "freeSlotCount a' = freeSlotCount ?a0 + of_nat (unat sz - 0)"
    "allocSlotCount a' = allocSlotCount ?a0"
    "selfPointer a' = selfPointer ?a0"
    "inuse_items p' = inuse_items ?p1 - int (unat sz - 0)"
    "free_items p' = free_items ?p1 + int (unat sz - 0)"
    "slabs p' = slabs ?p1" "next_block p' = next_block ?p1"
    by blast
  from initSlab_loop_links[OF m0, of 0 "unat sz" ?p1] g(1)
  obtain m where l: "freeSlabHeads a' = replicate m ?sp @ freeSlabHeads ?a0"
     "freeSlots ?slab = 0 \<and> 0 < unat sz \<longrightarrow> 0 < m"
     "unat (freeSlots ?slab) + (unat sz - 0) < 2 ^ 32 \<longrightarrow> m = (if freeSlots ?slab = 0 \<and> 0 < unat sz then 1 else 0)"
    by auto
  have nz: "(0 < unat sz) = (sz \<noteq> 0)" by (simp add: unat_gt_0)
  have uc: "(of_nat (unat sz) :: 32 word) = ucast sz" by simp
  show ?thesis
    apply (intro exI[of _ p'] exI[of _ a'] exI[of _ m])
    using unf g l nz by (auto simp: uc)
qed
lemma fresh4_ctor: "slab_allocator_ctor 0 4 pool0 = Inr fresh4"
  apply (simp add: slab_allocator_ctor_def slab_new_def pool0_def initSlab_def
      initSlab_loop.simps freeslot_def Let_def slab_item_free_def fresh4_def)
  apply (simp add: numeral_3_eq_3 numeral_2_eq_2)
  done


section \<open>Reserve\<close>

text \<open>
  Claim C2. For every request \<open>n\<close> and every state: when \<open>freeSlotCount < n\<close>,
  \<^verbatim>\<open>reserve(n)\<close> is one call of \<^verbatim>\<open>addSlab(n - freeSlotCount)\<close>, which takes exactly one
  block from the pool (one more slab, the next block address) holding
  \<open>n - freeSlotCount\<close> slots, and leaves \<open>freeSlotCount = n\<close>; a second
  \<^verbatim>\<open>reserve(n)\<close> then changes nothing. When \<open>freeSlotCount \<ge> n\<close> nothing is allocated
  and the state is unchanged.
\<close>

theorem reserve_one_request:
  "(freeSlotCount a < n \<longrightarrow>
      (\<exists>p' a'. reserve n (p, a) = Inr (p', a')
         \<and> reserve n (p, a) = addSlab (n - freeSlotCount a) (p, a)
         \<and> next_block p' = Suc (next_block p)
         \<and> slabs p' = slabs p + 1
         \<and> mem a' = (mem a)(HeapSlab (next_block p) \<mapsto>
               \<lparr>slabSize = ucast (n - freeSlotCount a), freeSlots = ucast (n - freeSlotCount a),
                freeHead = rev [0..<unat (n - freeSlotCount a)]\<rparr>)
         \<and> freeSlotCount a' = n
         \<and> n \<le> freeSlotCount a'
         \<and> reserve n (p', a') = Inr (p', a')))
   \<and> (n \<le> freeSlotCount a \<longrightarrow> reserve n (p, a) = Inr (p, a))"
proof (intro conjI impI)
  assume lt: "freeSlotCount a < n"
  from addSlab_result[of "n - freeSlotCount a" p a]
  obtain p' a' where r: "addSlab (n - freeSlotCount a) (p, a) = Inr (p', a')"
    "mem a' = (mem a)(HeapSlab (next_block p) \<mapsto>
               \<lparr>slabSize = ucast (n - freeSlotCount a), freeSlots = ucast (n - freeSlotCount a),
                freeHead = rev [0..<unat (n - freeSlotCount a)]\<rparr>)"
    "freeSlotCount a' = freeSlotCount a + (n - freeSlotCount a)"
    "slabs p' = slabs p + 1" "next_block p' = Suc (next_block p)"
    by blast
  have f: "freeSlotCount a' = n" using r(3) by simp
  show "\<exists>p' a'. reserve n (p, a) = Inr (p', a')
         \<and> reserve n (p, a) = addSlab (n - freeSlotCount a) (p, a)
         \<and> next_block p' = Suc (next_block p)
         \<and> slabs p' = slabs p + 1
         \<and> mem a' = (mem a)(HeapSlab (next_block p) \<mapsto>
               \<lparr>slabSize = ucast (n - freeSlotCount a), freeSlots = ucast (n - freeSlotCount a),
                freeHead = rev [0..<unat (n - freeSlotCount a)]\<rparr>)
         \<and> freeSlotCount a' = n
         \<and> n \<le> freeSlotCount a'
         \<and> reserve n (p', a') = Inr (p', a')"
    apply (intro exI[of _ p'] exI[of _ a'])
    using lt r f by (simp add: reserve_def reserve_internal_def)
next
  assume "n \<le> freeSlotCount a"
  then have "\<not> freeSlotCount a < n" by simp
  then show "reserve n (p, a) = Inr (p, a)"
    by (simp add: reserve_def reserve_internal_def)
qed

theorem reserve_one_request_witness:
  "freeSlotCount (snd fresh4) < 9
   \<and> reserve 9 fresh4 = addSlab 5 fresh4
   \<and> freeSlotCount (snd (projr (reserve 9 fresh4))) = 9
   \<and> slabs (fst (projr (reserve 9 fresh4))) = 2
   \<and> reserve 9 (projr (reserve 9 fresh4)) = reserve 9 fresh4
   \<and> reserve 4 fresh4 = Inr fresh4"
proof -
  have lt: "freeSlotCount (snd fresh4) < 9" by (simp add: fresh4_def)
  have le: "4 \<le> freeSlotCount (snd fresh4)" by (simp add: fresh4_def)
  have d: "9 - freeSlotCount (snd fresh4) = 5" by (simp add: fresh4_def)
  have s: "slabs (fst fresh4) = 1" by (simp add: fresh4_def)
  have c: "(fst fresh4, snd fresh4) = fresh4" by simp
  from reserve_one_request[of "snd fresh4" 9 "fst fresh4"] lt
  obtain p' a' where r: "reserve 9 (fst fresh4, snd fresh4) = Inr (p', a')"
     "reserve 9 (fst fresh4, snd fresh4) = addSlab (9 - freeSlotCount (snd fresh4)) (fst fresh4, snd fresh4)"
     "slabs p' = slabs (fst fresh4) + 1" "freeSlotCount a' = 9" "reserve 9 (p', a') = Inr (p', a')"
    by blast
  have n: "reserve 4 (fst fresh4, snd fresh4) = Inr (fst fresh4, snd fresh4)"
    using reserve_one_request[of "snd fresh4" 4 "fst fresh4"] le by blast
  show ?thesis
    using lt r n unfolding c d s by simp
qed

section \<open>Adding a slab\<close>

lemma addSlab_fresh4: "addSlab 5 fresh4 = Inr reserved9"
  apply (simp add: addSlab_def slab_new_def initSlab_def fresh4_def
      initSlab_loop.simps freeslot_def Let_def slab_item_free_def reserved9_def)
  apply (simp add: numeral_3_eq_3 numeral_2_eq_2 eval_nat_numeral)
  done

text \<open>
  Claim C7, as amended. For every capacity \<open>c\<close>, \<^verbatim>\<open>addSlab(c)\<close> takes one new block
  from the mempool, pushes all \<open>c\<close> slots of the new slab on that slab's free list
  (slot \<open>c - 1\<close> first) and adds \<open>c\<close> to \<open>freeSlotCount\<close>; for \<open>c \<noteq> 0\<close> the new slab
  is then the head of the free-slab list (linked exactly once when \<open>c < 2^32\<close>), while
  for \<open>c = 0\<close> the list is unchanged. \<open>allocSlotCount\<close> is not changed: it keeps the
  value \<^verbatim>\<open>stackSize\<close> given by the constructor.
\<close>

theorem addSlab_effect:
  "\<exists>p' a'. addSlab c (p, a) = Inr (p', a')
     \<and> next_block p' = Suc (next_block p)
     \<and> slabs p' = slabs p + 1
     \<and> mem a' = (mem a)(HeapSlab (next_block p) \<mapsto>
                     \<lparr>slabSize = ucast c, freeSlots = ucast c, freeHead = rev [0..<unat c]\<rparr>)
     \<and> (c \<noteq> 0 \<longrightarrow> freeSlabHeads a' \<noteq> [] \<and> hd (freeSlabHeads a') = HeapSlab (next_block p))
     \<and> (c \<noteq> 0 \<and> unat c < 2 ^ 32 \<longrightarrow>
            freeSlabHeads a' = HeapSlab (next_block p) # freeSlabHeads a)
     \<and> (c = 0 \<longrightarrow> freeSlabHeads a' = freeSlabHeads a)
     \<and> freeSlotCount a' = freeSlotCount a + c
     \<and> allocSlotCount a' = allocSlotCount a"
proof -
  from addSlab_result[of c p a]
  obtain p' a' m where r: "addSlab c (p, a) = Inr (p', a')"
     "mem a' = (mem a)(HeapSlab (next_block p) \<mapsto>
                     \<lparr>slabSize = ucast c, freeSlots = ucast c, freeHead = rev [0..<unat c]\<rparr>)"
     "freeSlotCount a' = freeSlotCount a + c"
     "allocSlotCount a' = allocSlotCount a"
     "freeSlabHeads a' = replicate m (HeapSlab (next_block p)) @ freeSlabHeads a"
     "c \<noteq> 0 \<longrightarrow> 0 < m"
     "unat c < 2 ^ 32 \<longrightarrow> m = (if c = 0 then 0 else 1)"
     "slabs p' = slabs p + 1" "next_block p' = Suc (next_block p)"
    by blast
  have linked: "freeSlabHeads a' \<noteq> [] \<and> hd (freeSlabHeads a') = HeapSlab (next_block p)" if "c \<noteq> 0"
  proof -
    from that r(6) obtain k where "m = Suc k" by (cases m) auto
    with r(5) show ?thesis by simp
  qed
  have once: "freeSlabHeads a' = HeapSlab (next_block p) # freeSlabHeads a"
    if "c \<noteq> 0" "unat c < 2 ^ 32"
    using that r(5,7) by simp
  have none: "freeSlabHeads a' = freeSlabHeads a" if "c = 0"
    using that r(5,7) by simp
  show ?thesis
    apply (intro exI[of _ p'] exI[of _ a'])
    using r(1-4,8,9) linked once none by blast
qed

theorem addSlab_effect_witness:
  "addSlab 5 fresh4 = Inr reserved9
   \<and> mem (snd reserved9) (HeapSlab 0) = Some \<lparr>slabSize = 5, freeSlots = 5, freeHead = [4, 3, 2, 1, 0]\<rparr>
   \<and> freeSlabHeads (snd reserved9) = HeapSlab 0 # freeSlabHeads (snd fresh4)
   \<and> freeSlotCount (snd reserved9) = freeSlotCount (snd fresh4) + 5
   \<and> allocSlotCount (snd reserved9) = allocSlotCount (snd fresh4)"
proof -
  have c: "(fst fresh4, snd fresh4) = fresh4" by simp
  have nb: "next_block (fst fresh4) = 0" by (simp add: fresh4_def)
  from addSlab_effect[of 5 "fst fresh4" "snd fresh4"]
  obtain p' a' where r: "addSlab 5 (fst fresh4, snd fresh4) = Inr (p', a')"
     "(5::size_t) \<noteq> 0 \<and> unat (5::size_t) < 2 ^ 32 \<longrightarrow>
            freeSlabHeads a' = HeapSlab (next_block (fst fresh4)) # freeSlabHeads (snd fresh4)"
     "freeSlotCount a' = freeSlotCount (snd fresh4) + 5"
     "allocSlotCount a' = allocSlotCount (snd fresh4)"
    by blast
  from r(1) have "reserved9 = (p', a')" unfolding c addSlab_fresh4 by simp
  then have e: "a' = snd reserved9" by (metis snd_conv)
  have l: "freeSlabHeads a' = HeapSlab 0 # freeSlabHeads (snd fresh4)"
    using r(2) nb by simp
  have m: "mem (snd reserved9) (HeapSlab 0)
      = Some \<lparr>slabSize = 5, freeSlots = 5, freeHead = [4, 3, 2, 1, 0]\<rparr>"
    by (simp add: reserved9_def)
  show ?thesis
    using r(3,4) l m unfolding e by (simp add: addSlab_fresh4)
qed

text \<open>
  The claim as stated fails: on the fresh allocator with \<^verbatim>\<open>stackSize = 4\<close>,
  \<^verbatim>\<open>addSlab(5)\<close> leaves \<open>allocSlotCount\<close> at 4, and \<^verbatim>\<open>addSlab(0)\<close> creates a slab that
  is not linked on the free-slab list.
\<close>

theorem addSlab_allocSlotCount_counterexample:
  "addSlab 5 fresh4 = Inr reserved9
   \<and> allocSlotCount (snd fresh4) = 4
   \<and> allocSlotCount (snd reserved9) = 4
   \<and> allocSlotCount (snd reserved9) \<noteq> allocSlotCount (snd fresh4) + 5
   \<and> addSlab 0 fresh4 = Inr fresh4_empty_slab
   \<and> mem (snd fresh4_empty_slab) (HeapSlab 0) = Some \<lparr>slabSize = 0, freeSlots = 0, freeHead = []\<rparr>
   \<and> HeapSlab 0 \<notin> set (freeSlabHeads (snd fresh4_empty_slab))"
proof -
  have "addSlab 0 fresh4 = Inr fresh4_empty_slab"
    by (simp add: addSlab_def slab_new_def initSlab_def fresh4_def
      initSlab_loop.simps fresh4_empty_slab_def)
  then show ?thesis
    by (simp add: addSlab_fresh4) (simp add: reserved9_def fresh4_def fresh4_empty_slab_def)
qed


section \<open>The invariant of the allocator\<close>

lemma map_total_upd_new:
  assumes "finite (dom m)" "m k = None"
  shows "map_total f (m(k \<mapsto> v)) = map_total f m + f v"
proof -
  have k: "k \<notin> dom m" using assms(2) by (simp add: domIff)
  have "(\<Sum>x\<in>dom m. f (the ((m(k \<mapsto> v)) x))) = (\<Sum>x\<in>dom m. f (the (m x)))"
    by (rule sum.cong) (use k in auto)
  then show ?thesis
    using assms(1) k by (simp add: map_total_def)
qed

lemma map_total_del:
  assumes "finite (dom m)" "m k = Some u"
  shows "map_total f (m(k := None)) + f u = map_total f m"
proof -
  have k: "k \<in> dom m" using assms(2) by (simp add: domIff)
  have "(\<Sum>x\<in>dom m - {k}. f (the ((m(k := None)) x))) = (\<Sum>x\<in>dom m - {k}. f (the (m x)))"
    by (rule sum.cong) auto
  moreover have "(\<Sum>x\<in>dom m. f (the (m x))) = f (the (m k)) + (\<Sum>x\<in>dom m - {k}. f (the (m x)))"
    using assms(1) k by (rule sum.remove)
  ultimately show ?thesis
    using assms(2) by (simp add: map_total_def)
qed

lemma map_total_upd_old:
  assumes "finite (dom m)" "m k = Some u"
  shows "map_total f (m(k \<mapsto> v)) + f u = map_total f m + f v"
proof -
  have fin: "finite (dom (m(k := None)))" using assms(1) by simp
  have "map_total f ((m(k := None))(k \<mapsto> v)) = map_total f (m(k := None)) + f v"
    by (rule map_total_upd_new[OF fin]) simp
  with map_total_del[OF assms, of f] show ?thesis by simp
qed

lemma map_total_ge:
  assumes "finite (dom m)" "m k = Some u"
  shows "f u \<le> map_total f m"
  using map_total_del[OF assms, of f] by linarith

lemma slab_ok_length:
  assumes "slab_ok slab"
  shows "length (freeHead slab) \<le> unat (slabSize slab)"
proof -
  have "set (freeHead slab) \<subseteq> {..<unat (slabSize slab)}"
    using assms by (auto simp: slab_ok_def)
  then have "card (set (freeHead slab)) \<le> card {..<unat (slabSize slab)}"
    by (intro card_mono) auto
  moreover have "card (set (freeHead slab)) = length (freeHead slab)"
    using assms by (simp add: slab_ok_def distinct_card)
  ultimately show ?thesis by simp
qed

lemma slab_ok_push:
  assumes "slab_ok slab" "i < unat (slabSize slab)" "i \<notin> set (freeHead slab)"
  shows "slab_ok (slab\<lparr>freeHead := i # freeHead slab, freeSlots := freeSlots slab + 1\<rparr>)"
    and "freeSlots slab + 1 \<noteq> 0"
    and "(freeSlots slab + 1 = 1) = (freeSlots slab = 0)"
proof -
  let ?s = "slab\<lparr>freeHead := i # freeHead slab, freeSlots := freeSlots slab + 1\<rparr>"
  have d: "distinct (freeHead ?s)" "\<forall>j \<in> set (freeHead ?s). j < unat (slabSize ?s)"
    using assms by (auto simp: slab_ok_def)
  have dl: "distinct (i # freeHead slab)" using assms by (simp add: slab_ok_def)
  have "set (i # freeHead slab) \<subseteq> {..<unat (slabSize slab)}"
    using assms by (auto simp: slab_ok_def)
  then have "card (set (i # freeHead slab)) \<le> card {..<unat (slabSize slab)}"
    by (intro card_mono) auto
  moreover have "card (set (i # freeHead slab)) = length (i # freeHead slab)"
    using dl by (rule distinct_card)
  ultimately have "length (freeHead slab) + 1 \<le> unat (slabSize slab)"
    by simp
  moreover have "unat (slabSize slab) < 2 ^ 32"
    using unsigned_less[of "slabSize slab", where 'a=nat] by simp
  ultimately have b: "unat (freeSlots slab) + 1 < 2 ^ 32"
    using assms(1) by (simp add: slab_ok_def)
  then have u: "unat (freeSlots slab + 1) = unat (freeSlots slab) + 1"
    by (simp add: unat_word_ariths)
  show "slab_ok ?s"
    using d u assms(1) unfolding slab_ok_def by simp
  show "freeSlots slab + 1 \<noteq> 0"
    using u by (metis Suc_eq_plus1 nat.distinct(1) unat_0)
  show "(freeSlots slab + 1 = 1) = (freeSlots slab = 0)"
    by simp
qed

lemma alloc_inv_push:
  assumes inv: "alloc_inv a" and m: "mem a sp = Some slab"
    and i: "i < unat (slabSize slab)" "i \<notin> set (freeHead slab)"
  shows "alloc_inv (a\<lparr>mem := (mem a)(sp \<mapsto> slab\<lparr>freeHead := i # freeHead slab,
                                                    freeSlots := freeSlots slab + 1\<rparr>),
                      freeSlotCount := freeSlotCount a + 1,
                      freeSlabHeads := (if freeSlots slab + 1 = 1 then sp # freeSlabHeads a
                                        else freeSlabHeads a)\<rparr>)"
    (is "alloc_inv ?a2")
proof -
  let ?slab1 = "slab\<lparr>freeHead := i # freeHead slab, freeSlots := freeSlots slab + 1\<rparr>"
  have ok: "slab_ok slab" using inv m by (auto simp: alloc_inv_def)
  note push = slab_ok_push[OF ok i]
  have fin: "finite (dom (mem a))" using inv by (simp add: alloc_inv_def)
  have on: "\<And>q. q \<in> set (freeSlabHeads a) \<longleftrightarrow> (\<exists>s. mem a q = Some s \<and> freeSlots s \<noteq> 0)"
    using inv by (simp add: alloc_inv_def)
  have c1: "finite (dom (mem ?a2))" using fin by simp
  have c2: "\<forall>q s. mem ?a2 q = Some s \<longrightarrow> slab_ok s"
    using inv push(1) by (auto simp: alloc_inv_def)
  have c3: "distinct (freeSlabHeads ?a2)"
    using inv on[of sp] m push(3) by (auto simp: alloc_inv_def)
  have c4: "\<forall>q. q \<in> set (freeSlabHeads ?a2) \<longleftrightarrow> (\<exists>s. mem ?a2 q = Some s \<and> freeSlots s \<noteq> 0)"
  proof
    fix q
    show "q \<in> set (freeSlabHeads ?a2) \<longleftrightarrow> (\<exists>s. mem ?a2 q = Some s \<and> freeSlots s \<noteq> 0)"
    proof (cases "q = sp")
      case True
      then show ?thesis using on[of sp] m push(2,3) by auto
    next
      case False
      then show ?thesis using on[of q] by auto
    qed
  qed
  have "free_total ?a2 + length (freeHead slab) = free_total a + length (freeHead ?slab1)"
    unfolding free_total_def
    using map_total_upd_old[OF fin m, of "\<lambda>slab. length (freeHead slab)" ?slab1] by simp
  then have "free_total ?a2 = free_total a + 1" by simp
  then have c5: "freeSlotCount ?a2 = of_nat (free_total ?a2)"
    using inv by (simp add: alloc_inv_def)
  have c6: "mem ?a2 (StackSlab (selfPointer ?a2)) \<noteq> None"
    using inv by (simp add: alloc_inv_def)
  have c7: "\<forall>k. mem ?a2 (StackSlab k) \<noteq> None \<longrightarrow> k = selfPointer ?a2"
    using inv m by (auto simp: alloc_inv_def)
  show ?thesis
    unfolding alloc_inv_def using c1 c2 c3 c4 c5 c6 c7 by blast
qed

lemma alloc_inv_drop:
  assumes inv: "alloc_inv a" and m: "mem a sp = Some slab"
    and ns: "sp \<noteq> StackSlab (selfPointer a)"
  shows "alloc_inv (a\<lparr>freeSlabHeads := remove1 sp (freeSlabHeads a),
                      freeSlotCount := freeSlotCount a - of_nat (length (freeHead slab)),
                      mem := (mem a)(sp := None)\<rparr>)"
    (is "alloc_inv ?a2")
proof -
  have fin: "finite (dom (mem a))" using inv by (simp add: alloc_inv_def)
  have on: "\<And>q. q \<in> set (freeSlabHeads a) \<longleftrightarrow> (\<exists>s. mem a q = Some s \<and> freeSlots s \<noteq> 0)"
    using inv by (simp add: alloc_inv_def)
  have d: "distinct (freeSlabHeads a)" using inv by (simp add: alloc_inv_def)
  have c1: "finite (dom (mem ?a2))" using fin by simp
  have c2: "\<forall>q s. mem ?a2 q = Some s \<longrightarrow> slab_ok s"
    using inv by (auto simp: alloc_inv_def split: if_splits)
  have c3: "distinct (freeSlabHeads ?a2)" using d by simp
  have c4: "\<forall>q. q \<in> set (freeSlabHeads ?a2) \<longleftrightarrow> (\<exists>s. mem ?a2 q = Some s \<and> freeSlots s \<noteq> 0)"
    using on d by auto
  have "free_total ?a2 + length (freeHead slab) = free_total a"
    unfolding free_total_def
    using map_total_del[OF fin m, of "\<lambda>slab. length (freeHead slab)"] by simp
  then have "(of_nat (free_total ?a2) :: size_t) = of_nat (free_total a) - of_nat (length (freeHead slab))"
    by (metis add_diff_cancel_right' of_nat_add)
  then have c5: "freeSlotCount ?a2 = of_nat (free_total ?a2)"
    using inv by (simp add: alloc_inv_def)
  have c6: "mem ?a2 (StackSlab (selfPointer ?a2)) \<noteq> None"
    using inv ns by (auto simp: alloc_inv_def)
  have c7: "\<forall>k. mem ?a2 (StackSlab k) \<noteq> None \<longrightarrow> k = selfPointer ?a2"
    using inv by (auto simp: alloc_inv_def)
  show ?thesis
    unfolding alloc_inv_def using c1 c2 c3 c4 c5 c6 c7 by blast
qed

lemma freeslot_eq:
  assumes "mem a sp = Some slab"
  shows "freeslot (sp, i) b (p, a) =
     (if b \<and> freeSlots slab + 1 = slabSize slab \<and> sp \<noteq> StackSlab (selfPointer a)
      then (if sp \<notin> set (freeSlabHeads (push_slot sp i slab a)) then Inl InvariantViolation
            else if freeSlotCount a + 1 < ucast (slabSize slab) then Inl InvariantViolation
            else Inr (slab_delete (ucast (slabSize slab)) (slab_item_free p),
                      drop_slab sp slab (push_slot sp i slab a)))
      else Inr (slab_item_free p, push_slot sp i slab a))"
  using assms by (simp add: freeslot_def Let_def push_slot_def drop_slab_def)

lemma alloc_inv_push_slot:
  assumes "alloc_inv a" "mem a sp = Some slab" "i < unat (slabSize slab)" "i \<notin> set (freeHead slab)"
  shows "alloc_inv (push_slot sp i slab a)"
  unfolding push_slot_def using assms by (rule alloc_inv_push)

lemma alloc_inv_drop_slab:
  assumes inv: "alloc_inv a" and m: "mem a sp = Some slab'"
    and ns: "sp \<noteq> StackSlab (selfPointer a)" and full: "freeSlots slab' = slabSize slab'"
    and sz: "slabSize slab = slabSize slab'"
  shows "alloc_inv (drop_slab sp slab a)"
proof -
  have ok: "slab_ok slab'" using inv m by (auto simp: alloc_inv_def)
  then have "unat (slabSize slab') = length (freeHead slab')"
    using full by (simp add: slab_ok_def)
  moreover have "(ucast (slabSize slab') :: size_t) = of_nat (unat (slabSize slab'))"
    by (rule of_nat_unat[symmetric])
  ultimately have "(ucast (slabSize slab) :: size_t) = of_nat (length (freeHead slab'))"
    using sz by (simp only:)
  then show ?thesis
    unfolding drop_slab_def using alloc_inv_drop[OF inv m ns] by simp
qed

lemma alloc_inv_pop_slot:
  assumes inv: "alloc_inv a" and l: "freeSlabHeads a = sp # rest" and m: "mem a sp = Some slab"
  shows "alloc_inv (pop_slot sp slab a)"
    and "freeHead slab \<noteq> []"
    and "(freeSlots slab - 1 = 0) = (tl (freeHead slab) = [])"
proof -
  let ?slab1 = "slab\<lparr>freeHead := tl (freeHead slab), freeSlots := freeSlots slab - 1\<rparr>"
  have ok: "slab_ok slab" using inv m by (auto simp: alloc_inv_def)
  have fin: "finite (dom (mem a))" using inv by (simp add: alloc_inv_def)
  have on: "\<And>q. q \<in> set (freeSlabHeads a) \<longleftrightarrow> (\<exists>s. mem a q = Some s \<and> freeSlots s \<noteq> 0)"
    using inv by (simp add: alloc_inv_def)
  have nz: "freeSlots slab \<noteq> 0" using on[of sp] l m by simp
  then have len: "length (freeHead slab) \<noteq> 0"
    using ok by (metis slab_ok_def unat_eq_0)
  then show ne: "freeHead slab \<noteq> []" by simp
  then obtain i nxt where fh: "freeHead slab = i # nxt" by (cases "freeHead slab") auto
  have "1 \<le> freeSlots slab" using nz by (simp add: word_le_nat_alt unat_gt_0 Suc_leI)
  then have u: "unat (freeSlots slab - 1) = unat (freeSlots slab) - 1"
    by (simp add: unat_sub)
  then have u': "unat (freeSlots slab - 1) = length nxt" using ok fh by (simp add: slab_ok_def)
  show z: "(freeSlots slab - 1 = 0) = (tl (freeHead slab) = [])"
    using u' fh by (metis length_0_conv list.sel(3) unat_eq_0)
  have ok1: "slab_ok ?slab1" using ok fh u' by (simp add: slab_ok_def)
  have d: "distinct (freeSlabHeads a)" using inv by (simp add: alloc_inv_def)
  have c1: "finite (dom (mem (pop_slot sp slab a)))" using fin by (simp add: pop_slot_def)
  have c2: "\<forall>q s. mem (pop_slot sp slab a) q = Some s \<longrightarrow> slab_ok s"
    using inv ok1 by (auto simp: alloc_inv_def pop_slot_def)
  have c3: "distinct (freeSlabHeads (pop_slot sp slab a))"
    using d l by (auto simp: pop_slot_def)
  have c4: "\<forall>q. q \<in> set (freeSlabHeads (pop_slot sp slab a)) \<longleftrightarrow>
         (\<exists>s. mem (pop_slot sp slab a) q = Some s \<and> freeSlots s \<noteq> 0)"
  proof
    fix q
    show "q \<in> set (freeSlabHeads (pop_slot sp slab a)) \<longleftrightarrow>
         (\<exists>s. mem (pop_slot sp slab a) q = Some s \<and> freeSlots s \<noteq> 0)"
    proof (cases "q = sp")
      case True
      then show ?thesis using d l by (auto simp: pop_slot_def)
    next
      case False
      then show ?thesis using on[of q] l by (auto simp: pop_slot_def)
    qed
  qed
  have "free_total (pop_slot sp slab a) + length (freeHead slab) = free_total a + length (freeHead ?slab1)"
    unfolding free_total_def pop_slot_def
    using map_total_upd_old[OF fin m, of "\<lambda>slab. length (freeHead slab)" ?slab1] by simp
  then have "free_total a = free_total (pop_slot sp slab a) + 1" using fh by simp
  then have "(of_nat (free_total (pop_slot sp slab a)) :: size_t) = of_nat (free_total a) - 1"
    by simp
  then have c5: "freeSlotCount (pop_slot sp slab a) = of_nat (free_total (pop_slot sp slab a))"
    using inv by (simp add: alloc_inv_def pop_slot_def)
  have c6: "mem (pop_slot sp slab a) (StackSlab (selfPointer (pop_slot sp slab a))) \<noteq> None"
    using inv by (simp add: alloc_inv_def pop_slot_def)
  have c7: "\<forall>k. mem (pop_slot sp slab a) (StackSlab k) \<noteq> None \<longrightarrow> k = selfPointer (pop_slot sp slab a)"
    using inv m by (auto simp: alloc_inv_def pop_slot_def)
  show "alloc_inv (pop_slot sp slab a)"
    unfolding alloc_inv_def using c1 c2 c3 c4 c5 c6 c7 by blast
qed

lemma unat_ucast_small:
  assumes "unat (sz :: size_t) < 2 ^ 32"
  shows "unat (ucast sz :: uint32_t) = unat sz"
  using assms by (simp add: unsigned_ucast_eq take_bit_nat_eq_self)

lemma new_slab_ok:
  assumes "unat (sz :: size_t) < 2 ^ 32"
  shows "slab_ok \<lparr>slabSize = ucast sz, freeSlots = ucast sz, freeHead = rev [0..<unat sz]\<rparr>"
    and "((ucast sz :: uint32_t) = 0) = (sz = 0)"
proof -
  show "slab_ok \<lparr>slabSize = ucast sz, freeSlots = ucast sz, freeHead = rev [0..<unat sz]\<rparr>"
    using unat_ucast_small[OF assms] by (simp add: slab_ok_def)
  show "((ucast sz :: uint32_t) = 0) = (sz = 0)"
    using unat_ucast_small[OF assms] by (metis unat_eq_0)
qed

lemma alloc_inv_new_slab:
  assumes inv: "alloc_inv a" and m: "mem a sp = None" and heap: "sp = HeapSlab h"
    and sz: "unat (sz :: size_t) < 2 ^ 32"
    and m': "mem a' = (mem a)(sp \<mapsto> \<lparr>slabSize = ucast sz, freeSlots = ucast sz,
                                      freeHead = rev [0..<unat sz]\<rparr>)"
    and f': "freeSlotCount a' = freeSlotCount a + sz"
    and s': "selfPointer a' = selfPointer a"
    and l': "freeSlabHeads a' = (if sz = 0 then freeSlabHeads a else sp # freeSlabHeads a)"
  shows "alloc_inv a'"
proof -
  let ?new = "\<lparr>slabSize = ucast sz, freeSlots = ucast sz, freeHead = rev [0..<unat sz]\<rparr> :: slab_t"
  note new = new_slab_ok[OF sz]
  have fin: "finite (dom (mem a))" using inv by (simp add: alloc_inv_def)
  have on: "\<And>q. q \<in> set (freeSlabHeads a) \<longleftrightarrow> (\<exists>s. mem a q = Some s \<and> freeSlots s \<noteq> 0)"
    using inv by (simp add: alloc_inv_def)
  have notin: "sp \<notin> set (freeSlabHeads a)" using on[of sp] m by simp
  have c1: "finite (dom (mem a'))" using fin m' by simp
  have c2: "\<forall>q s. mem a' q = Some s \<longrightarrow> slab_ok s"
    using inv new(1) m' by (auto simp: alloc_inv_def)
  have c3: "distinct (freeSlabHeads a')"
    using inv notin l' by (auto simp: alloc_inv_def)
  have c4: "\<forall>q. q \<in> set (freeSlabHeads a') \<longleftrightarrow> (\<exists>s. mem a' q = Some s \<and> freeSlots s \<noteq> 0)"
  proof
    fix q
    show "q \<in> set (freeSlabHeads a') \<longleftrightarrow> (\<exists>s. mem a' q = Some s \<and> freeSlots s \<noteq> 0)"
    proof (cases "q = sp")
      case True
      then show ?thesis using notin l' m' new(2) by auto
    next
      case False
      then show ?thesis using on[of q] l' m' by auto
    qed
  qed
  have "free_total a' = free_total a + unat sz"
    unfolding free_total_def m'
    using map_total_upd_new[OF fin m, of "\<lambda>slab. length (freeHead slab)" ?new] by simp
  then have c5: "freeSlotCount a' = of_nat (free_total a')"
    using inv f' by (simp add: alloc_inv_def)
  have c6: "mem a' (StackSlab (selfPointer a')) \<noteq> None"
    using inv s' m' heap by (simp add: alloc_inv_def)
  have c7: "\<forall>k. mem a' (StackSlab k) \<noteq> None \<longrightarrow> k = selfPointer a'"
    using inv s' m' heap by (auto simp: alloc_inv_def)
  show ?thesis
    unfolding alloc_inv_def using c1 c2 c3 c4 c5 c6 c7 by blast
qed

lemma addSlab_inv:
  assumes inv: "state_inv (p, a)" and sz: "unat (sz :: size_t) < 2 ^ 32"
  shows "\<exists>p' a'. addSlab sz (p, a) = Inr (p', a') \<and> state_inv (p', a')
     \<and> mem a' = (mem a)(HeapSlab (next_block p) \<mapsto>
                     \<lparr>slabSize = ucast sz, freeSlots = ucast sz, freeHead = rev [0..<unat sz]\<rparr>)
     \<and> mem a (HeapSlab (next_block p)) = None
     \<and> freeSlabHeads a' = (if sz = 0 then freeSlabHeads a
                            else HeapSlab (next_block p) # freeSlabHeads a)
     \<and> freeSlotCount a' = freeSlotCount a + sz
     \<and> allocSlotCount a' = allocSlotCount a
     \<and> selfPointer a' = selfPointer a
     \<and> inuse_items p' = inuse_items p
     \<and> free_items p' = free_items p + uint sz
     \<and> slabs p' = slabs p + 1 \<and> next_block p' = Suc (next_block p)"
proof -
  from addSlab_result[of sz p a]
  obtain p' a' m where r: "addSlab sz (p, a) = Inr (p', a')"
     "mem a' = (mem a)(HeapSlab (next_block p) \<mapsto>
                     \<lparr>slabSize = ucast sz, freeSlots = ucast sz, freeHead = rev [0..<unat sz]\<rparr>)"
     "freeSlotCount a' = freeSlotCount a + sz"
     "allocSlotCount a' = allocSlotCount a"
     "selfPointer a' = selfPointer a"
     "freeSlabHeads a' = replicate m (HeapSlab (next_block p)) @ freeSlabHeads a"
     "unat sz < 2 ^ 32 \<longrightarrow> m = (if sz = 0 then 0 else 1)"
     "inuse_items p' = inuse_items p"
     "free_items p' = free_items p + uint sz"
     "slabs p' = slabs p + 1" "next_block p' = Suc (next_block p)"
    by blast
  have l: "freeSlabHeads a' = (if sz = 0 then freeSlabHeads a
                            else HeapSlab (next_block p) # freeSlabHeads a)"
    using r(6,7) sz by simp
  have none: "mem a (HeapSlab (next_block p)) = None"
    using inv by (auto simp: state_inv_def fresh_for_def)
  have ai: "alloc_inv a'"
    using inv none r(2,3,5) l sz
    by (intro alloc_inv_new_slab[of a "HeapSlab (next_block p)" "next_block p" sz a'])
       (simp_all add: state_inv_def)
  have fr: "fresh_for p' a'"
    using inv r(2,11) by (auto simp: state_inv_def fresh_for_def less_Suc_eq)
  show ?thesis
    apply (intro exI[of _ p'] exI[of _ a'])
    using r ai fr l none by (simp add: state_inv_def)
qed

lemma ctor_inv:
  assumes sz: "unat (stackSize :: size_t) < 2 ^ 32"
  shows "\<exists>p' a'. slab_allocator_ctor self stackSize p = Inr (p', a') \<and> state_inv (p', a')
     \<and> mem a' = [StackSlab self \<mapsto>
                     \<lparr>slabSize = ucast stackSize, freeSlots = ucast stackSize,
                      freeHead = rev [0..<unat stackSize]\<rparr>]
     \<and> freeSlabHeads a' = (if stackSize = 0 then [] else [StackSlab self])
     \<and> freeSlotCount a' = stackSize
     \<and> allocSlotCount a' = stackSize
     \<and> selfPointer a' = self
     \<and> inuse_items p' = inuse_items p
     \<and> free_items p' = free_items p + uint stackSize
     \<and> slabs p' = slabs p + 1 \<and> next_block p' = next_block p"
proof -
  let ?sp = "StackSlab self"
  let ?slab = "\<lparr>slabSize = ucast stackSize, freeSlots = 0, freeHead = []\<rparr> :: slab_t"
  let ?new = "\<lparr>slabSize = ucast stackSize, freeSlots = ucast stackSize,
                freeHead = rev [0..<unat stackSize]\<rparr> :: slab_t"
  let ?a0 = "\<lparr>selfPointer = self, freeSlabHeads = [], freeSlotCount = 0,
         allocSlotCount = stackSize, mem = [?sp \<mapsto> ?slab]\<rparr>"
  let ?p1 = "p\<lparr>inuse_items := inuse_items p + uint stackSize, free_items := free_items p,
               slabs := slabs p + 1, next_block := next_block p\<rparr>"
  have unf: "slab_allocator_ctor self stackSize p = initSlab_loop ?sp 0 (unat stackSize) (?p1, ?a0)"
    by (simp add: slab_allocator_ctor_def slab_new_def initSlab_def)
  have m0: "mem ?a0 ?sp = Some ?slab" by simp
  from initSlab_loop_general[OF m0, of 0 "unat stackSize" ?p1]
  obtain p' a' where g: "initSlab_loop ?sp 0 (unat stackSize) (?p1, ?a0) = Inr (p', a')"
    "mem a' = (mem ?a0)(?sp \<mapsto> ?slab\<lparr>freeHead := rev [0..<unat stackSize] @ freeHead ?slab,
                                      freeSlots := freeSlots ?slab + of_nat (unat stackSize - 0)\<rparr>)"
    "freeSlotCount a' = freeSlotCount ?a0 + of_nat (unat stackSize - 0)"
    "allocSlotCount a' = allocSlotCount ?a0"
    "selfPointer a' = selfPointer ?a0"
    "inuse_items p' = inuse_items ?p1 - int (unat stackSize - 0)"
    "free_items p' = free_items ?p1 + int (unat stackSize - 0)"
    "slabs p' = slabs ?p1" "next_block p' = next_block ?p1"
    by blast
  from initSlab_loop_links[OF m0, of 0 "unat stackSize" ?p1] g(1)
  obtain m where l: "freeSlabHeads a' = replicate m ?sp @ freeSlabHeads ?a0"
     "unat (freeSlots ?slab) + (unat stackSize - 0) < 2 ^ 32 \<longrightarrow>
        m = (if freeSlots ?slab = 0 \<and> 0 < unat stackSize then 1 else 0)"
    by auto
  have nz: "(0 < unat stackSize) = (stackSize \<noteq> 0)" by (simp add: unat_gt_0)
  have mem': "mem a' = [?sp \<mapsto> ?new]" using g(2) by simp
  have l': "freeSlabHeads a' = (if stackSize = 0 then [] else [?sp])"
    using l sz nz by simp
  have f': "freeSlotCount a' = stackSize" using g(3) by simp
  note new = new_slab_ok[OF sz]
  have ft: "free_total a' = unat stackSize"
    by (simp add: free_total_def map_total_def mem')
  have ai: "alloc_inv a'"
    unfolding alloc_inv_def
    using mem' l' f' g(5) new ft by auto
  have fr: "fresh_for p' a'" using mem' by (simp add: fresh_for_def)
  show ?thesis
    apply (intro exI[of _ p'] exI[of _ a'])
    using unf g mem' l' f' ai fr by (simp add: state_inv_def)
qed

lemma allocslot_take_slot:
  "allocslot heapSize st =
     (case (if freeSlabHeads (snd st) = [] then addSlab heapSize st else Inr st) of
        Inl e \<Rightarrow> Inl e
      | Inr st1 \<Rightarrow> take_slot st1)"
  unfolding allocslot_def take_slot_def ..

lemma alloc_inv_listed:
  assumes "alloc_inv a" "sp \<in> set (freeSlabHeads a)"
  obtains slab where "mem a sp = Some slab" "freeSlots slab \<noteq> 0"
  using assms unfolding alloc_inv_def by blast

lemma allocslot_nonempty:
  assumes inv: "alloc_inv a" and l: "freeSlabHeads a = sp # rest" and m: "mem a sp = Some slab"
  shows "take_slot (p, a) =
           Inr ((sp, hd (freeHead slab)), slab_item_allocate p, pop_slot sp slab a)"
proof -
  note pop = alloc_inv_pop_slot[OF inv l m]
  obtain i nxt where fh: "freeHead slab = i # nxt"
    using pop(2) by (cases "freeHead slab") auto
  have "sp \<in> set (freeSlabHeads a)" using l by simp
  from alloc_inv_listed[OF inv this] m have nz: "freeSlots slab \<noteq> 0"
    by (metis option.inject)
  show ?thesis
    using l m fh nz pop(3)
    by (simp add: take_slot_def Let_def pop_slot_def)
qed

lemma allocslot_listed:
  assumes "freeSlabHeads a \<noteq> []"
  shows "allocslot heapSize (p, a) = take_slot (p, a)"
  using assms by (simp add: allocslot_take_slot)

lemma allocslot_after_addSlab:
  assumes "freeSlabHeads a = []" "addSlab heapSize (p, a) = Inr (p1, a1)"
  shows "allocslot heapSize (p, a) = take_slot (p1, a1)"
  using assms by (simp add: allocslot_take_slot)

lemma live_pop_slot:
  assumes inv: "alloc_inv a" and l: "freeSlabHeads a = sp # rest" and m: "mem a sp = Some slab"
  shows "live (pop_slot sp slab a) (sp, hd (freeHead slab))"
    and "\<not> live a (sp, hd (freeHead slab))"
proof -
  note pop = alloc_inv_pop_slot[OF inv l m]
  obtain i nxt where fh: "freeHead slab = i # nxt"
    using pop(2) by (cases "freeHead slab") auto
  have ok: "slab_ok slab" using inv m by (auto simp: alloc_inv_def)
  show "live (pop_slot sp slab a) (sp, hd (freeHead slab))"
    using ok fh by (simp add: live_def pop_slot_def slab_ok_def)
  show "\<not> live a (sp, hd (freeHead slab))"
    using m fh by (simp add: live_def)
qed

lemma fresh_for_mono:
  assumes "fresh_for p a" "next_block p \<le> next_block p'" "dom (mem a') \<subseteq> dom (mem a)"
  shows "fresh_for p' a'"
  using assms unfolding fresh_for_def by (meson domIff less_le_trans subsetD)

lemma allocslot_inv:
  assumes inv: "state_inv (p, a)" and hs: "heapSize \<noteq> 0" "unat heapSize < 2 ^ 32"
  shows "\<exists>s p' a'. allocslot heapSize (p, a) = Inr (s, p', a') \<and> state_inv (p', a')
           \<and> live a' s \<and> \<not> live a s \<and> dom (mem a) \<subseteq> dom (mem a')
           \<and> selfPointer a' = selfPointer a \<and> allocSlotCount a' = allocSlotCount a"
proof (cases "freeSlabHeads a")
  case (Cons sp rest)
  have ai: "alloc_inv a" using inv by (simp add: state_inv_def)
  obtain slab where m: "mem a sp = Some slab"
    using alloc_inv_listed[OF ai, of sp] Cons by auto
  have r: "allocslot heapSize (p, a) =
           Inr ((sp, hd (freeHead slab)), slab_item_allocate p, pop_slot sp slab a)"
    using allocslot_nonempty[OF ai Cons m, of p] Cons by (simp add: allocslot_listed)
  note pop = alloc_inv_pop_slot[OF ai Cons m]
  note lv = live_pop_slot[OF ai Cons m]
  have d: "dom (mem (pop_slot sp slab a)) = dom (mem a)"
    using m by (auto simp: pop_slot_def)
  have sf: "selfPointer (pop_slot sp slab a) = selfPointer a"
    "allocSlotCount (pop_slot sp slab a) = allocSlotCount a"
    by (simp_all add: pop_slot_def)
  have fp: "fresh_for p a" using inv by (simp add: state_inv_def)
  have nb: "next_block p \<le> next_block (slab_item_allocate p)"
    by (simp add: slab_item_allocate_def)
  have fr: "fresh_for (slab_item_allocate p) (pop_slot sp slab a)"
    using fresh_for_mono[OF fp nb] d by simp
  show ?thesis
    apply (intro exI[of _ "(sp, hd (freeHead slab))"] exI[of _ "slab_item_allocate p"]
        exI[of _ "pop_slot sp slab a"])
    using r pop(1) lv d fr sf by (simp add: state_inv_def)
next
  case Nil
  from addSlab_inv[OF inv hs(2)]
  obtain p1 a1 where a: "addSlab heapSize (p, a) = Inr (p1, a1)" "state_inv (p1, a1)"
     "mem a1 = (mem a)(HeapSlab (next_block p) \<mapsto>
                     \<lparr>slabSize = ucast heapSize, freeSlots = ucast heapSize,
                      freeHead = rev [0..<unat heapSize]\<rparr>)"
     "mem a (HeapSlab (next_block p)) = None"
     "freeSlabHeads a1 = (if heapSize = 0 then freeSlabHeads a
                            else HeapSlab (next_block p) # freeSlabHeads a)"
     "selfPointer a1 = selfPointer a" "allocSlotCount a1 = allocSlotCount a"
    by blast
  let ?sp = "HeapSlab (next_block p)"
  let ?new = "\<lparr>slabSize = ucast heapSize, freeSlots = ucast heapSize,
                freeHead = rev [0..<unat heapSize]\<rparr> :: slab_t"
  have l1: "freeSlabHeads a1 = [?sp]" using a(5) hs(1) Nil by simp
  have ai1: "alloc_inv a1" using a(2) by (simp add: state_inv_def)
  have m1: "mem a1 ?sp = Some ?new" using a(3) by simp
  have eq: "allocslot heapSize (p, a) = take_slot (p1, a1)"
    using Nil a(1) by (rule allocslot_after_addSlab)
  note r = allocslot_nonempty[OF ai1 l1 m1, of p1]
  note pop = alloc_inv_pop_slot[OF ai1 l1 m1]
  note lv = live_pop_slot[OF ai1 l1 m1]
  have d: "dom (mem (pop_slot ?sp ?new a1)) = dom (mem a1)"
    using m1 by (auto simp: pop_slot_def)
  have sf: "selfPointer (pop_slot ?sp ?new a1) = selfPointer a1"
    "allocSlotCount (pop_slot ?sp ?new a1) = allocSlotCount a1"
    by (simp_all add: pop_slot_def)
  have fp: "fresh_for p1 a1" using a(2) by (simp add: state_inv_def)
  have nb: "next_block p1 \<le> next_block (slab_item_allocate p1)"
    by (simp add: slab_item_allocate_def)
  have fr: "fresh_for (slab_item_allocate p1) (pop_slot ?sp ?new a1)"
    using fresh_for_mono[OF fp nb] d by simp
  have nl: "\<not> live a (?sp, hd (freeHead ?new))"
    using a(4) by (simp add: live_def)
  have sub: "dom (mem a) \<subseteq> dom (mem (pop_slot ?sp ?new a1))"
    unfolding d using a(3) by auto
  show ?thesis
    apply (intro exI[of _ "(?sp, hd (freeHead ?new))"] exI[of _ "slab_item_allocate p1"]
        exI[of _ "pop_slot ?sp ?new a1"])
    using eq r pop(1) lv(1) nl sub fr a(6,7) sf by (simp add: state_inv_def)
qed

lemma freeslot_inv:
  assumes inv: "state_inv (p, a)" and lv: "live a s" and r: "freeslot s b (p, a) = Inr (p', a')"
  shows "state_inv (p', a')" and "selfPointer a' = selfPointer a"
    and "allocSlotCount a' = allocSlotCount a" and "next_block p' = next_block p"
proof -
  obtain sp i where s: "s = (sp, i)" by (cases s)
  from lv s obtain slab where m: "mem a sp = Some slab"
    and i: "i < unat (slabSize slab)" "i \<notin> set (freeHead slab)"
    by (auto simp: live_def split: option.splits)
  have ai: "alloc_inv a" and fr: "fresh_for p a" using inv by (simp_all add: state_inv_def)
  let ?slab1 = "slab\<lparr>freeHead := i # freeHead slab, freeSlots := freeSlots slab + 1\<rparr>"
  let ?a2 = "push_slot sp i slab a"
  have ai2: "alloc_inv ?a2" by (rule alloc_inv_push_slot[OF ai m i])
  have m2: "mem ?a2 sp = Some ?slab1" by (simp add: push_slot_def)
  have self2: "selfPointer ?a2 = selfPointer a" "allocSlotCount ?a2 = allocSlotCount a"
    by (simp_all add: push_slot_def)
  have d2: "dom (mem ?a2) = dom (mem a)" using m by (auto simp: push_slot_def)
  note e = freeslot_eq[OF m, of i b p]
  have "state_inv (p', a') \<and> selfPointer a' = selfPointer a
        \<and> allocSlotCount a' = allocSlotCount a \<and> next_block p' = next_block p"
  proof (cases "b \<and> freeSlots slab + 1 = slabSize slab \<and> sp \<noteq> StackSlab (selfPointer a)")
    case True
    with r e s have res: "p' = slab_delete (ucast (slabSize slab)) (slab_item_free p)"
        "a' = drop_slab sp slab ?a2"
      by (auto split: if_splits)
    have sd: "selfPointer (drop_slab sp slab ?a2) = selfPointer ?a2"
      "allocSlotCount (drop_slab sp slab ?a2) = allocSlotCount ?a2"
      "next_block (slab_delete (ucast (slabSize slab)) (slab_item_free p)) = next_block p"
      by (simp_all add: drop_slab_def slab_delete_def slab_item_free_def)
    have "alloc_inv (drop_slab sp slab ?a2)"
      using True self2 by (intro alloc_inv_drop_slab[OF ai2 m2]) simp_all
    moreover have "next_block p \<le> next_block p'"
      using res(1) by (simp add: slab_delete_def slab_item_free_def)
    moreover have "dom (mem (drop_slab sp slab ?a2)) \<subseteq> dom (mem a)"
      using d2 by (auto simp: drop_slab_def)
    ultimately have "alloc_inv (drop_slab sp slab ?a2)" "fresh_for p' (drop_slab sp slab ?a2)"
      using fresh_for_mono[OF fr] by blast+
    then
    show "state_inv (p', a') \<and> selfPointer a' = selfPointer a
        \<and> allocSlotCount a' = allocSlotCount a \<and> next_block p' = next_block p"
      using res self2 sd by (simp add: state_inv_def)
  next
    case False
    with r e s have res: "p' = slab_item_free p" "a' = ?a2" by auto
    have "next_block p \<le> next_block p'"
      using res(1) by (simp add: slab_item_free_def)
    then have "fresh_for p' ?a2"
      using fresh_for_mono[OF fr] d2 by simp
    then show "state_inv (p', a') \<and> selfPointer a' = selfPointer a
        \<and> allocSlotCount a' = allocSlotCount a \<and> next_block p' = next_block p"
      using res ai2 self2 by (simp add: state_inv_def slab_item_free_def)
  qed
  then show "state_inv (p', a')" "selfPointer a' = selfPointer a"
    "allocSlotCount a' = allocSlotCount a" "next_block p' = next_block p"
    by simp_all
qed

lemma freeslot_result:
  assumes m: "mem a sp = Some slab" and r: "freeslot (sp, i) b (p, a) = Inr (p', a')"
  shows "(b \<and> freeSlots slab + 1 = slabSize slab \<and> sp \<noteq> StackSlab (selfPointer a)
           \<and> sp \<in> set (freeSlabHeads (push_slot sp i slab a))
           \<and> \<not> freeSlotCount a + 1 < ucast (slabSize slab)
           \<and> p' = slab_delete (ucast (slabSize slab)) (slab_item_free p)
           \<and> a' = drop_slab sp slab (push_slot sp i slab a))
       \<or> (\<not> (b \<and> freeSlots slab + 1 = slabSize slab \<and> sp \<noteq> StackSlab (selfPointer a))
           \<and> p' = slab_item_free p \<and> a' = push_slot sp i slab a)"
  using r unfolding freeslot_eq[OF m] by (auto split: if_splits)

lemma reserve_inv:
  assumes inv: "state_inv (p, a)" and ok: "permitted (p, a) (Reserve n)"
    and r: "reserve n (p, a) = Inr (p', a')"
  shows "state_inv (p', a')" and "selfPointer a' = selfPointer a"
    and "allocSlotCount a' = allocSlotCount a" and "dom (mem a) \<subseteq> dom (mem a')"
proof -
  have "state_inv (p', a') \<and> selfPointer a' = selfPointer a
        \<and> allocSlotCount a' = allocSlotCount a \<and> dom (mem a) \<subseteq> dom (mem a')"
  proof (cases "freeSlotCount a < n")
    case True
    then have sz: "unat (n - freeSlotCount a) < 2 ^ 32"
      using ok by (simp add: permitted_def)
    from addSlab_inv[OF inv sz] r True show ?thesis
      by (auto simp: reserve_def reserve_internal_def)
  next
    case False
    then show ?thesis using r inv by (simp add: reserve_def reserve_internal_def)
  qed
  then show "state_inv (p', a')" "selfPointer a' = selfPointer a"
    "allocSlotCount a' = allocSlotCount a" "dom (mem a) \<subseteq> dom (mem a')"
    by simp_all
qed

lemma apply_op_inv:
  assumes inv: "state_inv st" and cfg: "heapSize \<noteq> 0" "unat heapSize < 2 ^ 32"
    and ok: "permitted st x" and r: "apply_op heapSize x st = Inr st'"
  shows "state_inv st' \<and> selfPointer (snd st') = selfPointer (snd st)
         \<and> allocSlotCount (snd st') = allocSlotCount (snd st)"
proof (cases x)
  case Allocate
  obtain p a where st: "st = (p, a)" by (cases st)
  from allocslot_inv[OF inv[unfolded st] cfg] r Allocate st show ?thesis
    by (auto simp: apply_op_def allocate_def)
next
  case (Deallocate s)
  obtain p a where st: "st = (p, a)" by (cases st)
  obtain p' a' where st': "st' = (p', a')" by (cases st')
  have lv: "live a s" using ok Deallocate st by (simp add: permitted_def)
  have "freeslot s True (p, a) = Inr (p', a')"
    using r Deallocate st st' by (simp add: apply_op_def deallocate_def)
  from freeslot_inv[OF inv[unfolded st] lv this] show ?thesis
    using st st' by simp
next
  case (Reserve n)
  obtain p a where st: "st = (p, a)" by (cases st)
  obtain p' a' where st': "st' = (p', a')" by (cases st')
  have "reserve n (p, a) = Inr (p', a')"
    using r Reserve st st' by (simp add: apply_op_def)
  from reserve_inv[OF inv[unfolded st] ok[unfolded st Reserve] this] show ?thesis
    using st st' by simp
qed

lemma trace_inv:
  assumes "trace stackSize heapSize self p0 ops st" "config_ok stackSize heapSize"
  shows "state_inv st \<and> selfPointer (snd st) = self \<and> allocSlotCount (snd st) = stackSize"
  using assms
proof (induction rule: trace.induct)
  case (trace_ctor st)
  then have "unat stackSize < 2 ^ 32" by (simp add: config_ok_def)
  from ctor_inv[OF this, of self p0] trace_ctor(1) show ?case by auto
next
  case (trace_op ops st x st')
  then have "heapSize \<noteq> 0" "unat heapSize < 2 ^ 32" by (simp_all add: config_ok_def)
  from apply_op_inv[OF _ this trace_op(2,3)] trace_op(4,5) show ?case by simp
qed

lemma word_ge_1_iff: "(1 \<le> (w :: 'a::len word)) = (w \<noteq> 0)"
  by (simp add: word_le_nat_alt unat_gt_0[symmetric] Suc_le_eq)

section \<open>The free-slab list\<close>

lemma fresh1_ctor: "slab_allocator_ctor 0 1 pool0 = Inr fresh1"
  by (simp add: slab_allocator_ctor_def slab_new_def pool0_def initSlab_def
      initSlab_loop.simps freeslot_def Let_def slab_item_free_def fresh1_def)

lemma fresh1_allocate_any: "allocate hs 1 fresh1 = Inr ((StackSlab 0, 0), full1)"
  by (simp add: allocate_def allocslot_def fresh1_def full1_def Let_def slab_item_allocate_def)

lemma trace_fresh4: "trace 4 12 0 pool0 [] fresh4"
  by (rule trace_ctor) (rule fresh4_ctor)

lemma config_4_12: "config_ok 4 12"
  by (simp add: config_ok_def)

text \<open>
  Claim C1, as amended. In every state reached from the constructor by allocations,
  deallocations of live slots and reserve requests (each adding fewer than \<open>2^32\<close>
  slots, with \<^verbatim>\<open>stackSize\<close> and \<^verbatim>\<open>heapSize\<close> below \<open>2^32\<close> and \<^verbatim>\<open>heapSize\<close> not zero),
  a slab is linked on the free-slab list, and then exactly once, if and only if the
  allocator holds it and its \<open>freeSlots\<close> is at least 1. This holds for the inline
  slab as for every heap slab: the inline slab has no exemption.
\<close>

theorem free_list_iff_free_slots:
  assumes "trace stackSize heapSize self p0 ops st" "config_ok stackSize heapSize"
  shows "distinct (freeSlabHeads (snd st))
         \<and> (sp \<in> set (freeSlabHeads (snd st))
              \<longleftrightarrow> (\<exists>slab. mem (snd st) sp = Some slab \<and> 1 \<le> freeSlots slab))"
proof -
  from trace_inv[OF assms] have "alloc_inv (snd st)" by (simp add: state_inv_def)
  then show ?thesis
    unfolding alloc_inv_def word_ge_1_iff by blast
qed

theorem free_list_iff_free_slots_witness:
  "trace 4 12 0 pool0 [] fresh4 \<and> config_ok 4 12
   \<and> StackSlab 0 \<in> set (freeSlabHeads (snd fresh4))
   \<and> (\<exists>slab. mem (snd fresh4) (StackSlab 0) = Some slab \<and> 1 \<le> freeSlots slab)
   \<and> HeapSlab 0 \<notin> set (freeSlabHeads (snd fresh4))"
proof -
  note t = free_list_iff_free_slots[OF trace_fresh4 config_4_12]
  have "StackSlab 0 \<in> set (freeSlabHeads (snd fresh4))" by (simp add: fresh4_def)
  moreover from this t[of "StackSlab 0"]
  have "\<exists>slab. mem (snd fresh4) (StackSlab 0) = Some slab \<and> 1 \<le> freeSlots slab" by blast
  moreover have "mem (snd fresh4) (HeapSlab 0) = None" by (simp add: fresh4_def)
  with t[of "HeapSlab 0"] have "HeapSlab 0 \<notin> set (freeSlabHeads (snd fresh4))" by simp
  ultimately show ?thesis using trace_fresh4 config_4_12 by blast
qed

text \<open>
  The claim as stated fails: with \<^verbatim>\<open>stackSize = 1\<close>, one allocation fills the inline slab,
  and \<^verbatim>\<open>allocslot\<close> unlinks it like any other slab; it is then held by the allocator
  with \<open>freeSlots = 0\<close> and is not on the free-slab list.
\<close>

theorem inline_slab_unlinked_counterexample:
  "trace 1 12 0 pool0 [Allocate] full1
   \<and> mem (snd full1) (StackSlab 0) = Some \<lparr>slabSize = 1, freeSlots = 0, freeHead = []\<rparr>
   \<and> StackSlab 0 \<notin> set (freeSlabHeads (snd full1))"
proof -
  have "trace 1 12 0 pool0 [] fresh1" by (rule trace_ctor) (rule fresh1_ctor)
  then have "trace 1 12 0 pool0 ([] @ [Allocate]) full1"
    by (rule trace_op) (simp_all add: permitted_def apply_op_def fresh1_allocate_any)
  then show ?thesis by (simp add: full1_def)
qed

section \<open>Releasing a slab\<close>

lemma full1_allocate: "allocate 2 1 full1 = Inr ((HeapSlab 0, 1), two1)"
  apply (simp add: allocate_def allocslot_def full1_def addSlab_def slab_new_def initSlab_def
      initSlab_loop.simps freeslot_def Let_def slab_item_free_def)
  apply (simp add: two1_def slab_item_allocate_def)
  done

lemma two1_deallocate: "deallocate (HeapSlab 0, 1) two1 = Inr full1_again"
  apply (simp add: deallocate_def freeslot_def two1_def Let_def slab_item_free_def slab_delete_def)
  apply (simp add: full1_again_def fun_upd_twist)
  done

lemma trace_two1: "trace 1 2 0 pool0 [Allocate, Allocate] two1"
proof -
  have "trace 1 2 0 pool0 [] fresh1" by (rule trace_ctor) (rule fresh1_ctor)
  then have "trace 1 2 0 pool0 ([] @ [Allocate]) full1"
    by (rule trace_op) (simp_all add: permitted_def apply_op_def fresh1_allocate_any)
  then have "trace 1 2 0 pool0 (([] @ [Allocate]) @ [Allocate]) two1"
    by (rule trace_op) (simp_all add: permitted_def apply_op_def full1_allocate)
  then show ?thesis by simp
qed

text \<open>
  Claim C4. In a reachable state, an operation after which a slab held before is no
  longer held is a \<^verbatim>\<open>deallocate\<close> of a slot of that slab; the slab is a heap slab, the
  freed slot was its last slot in use (\<open>freeSlots + 1 = slabSize\<close> before the free, so
  \<open>freeSlots = slabSize\<close> after it), the slab is no longer on the free-slab list,
  \<open>freeSlotCount\<close> has gone up by one for the slot and down by \<open>slabSize\<close>, and the pool
  has one slab less. The inline slab is still held after every operation.
\<close>

theorem slab_released_only_when_empty:
  assumes t: "trace stackSize heapSize self p0 ops st" and cfg: "config_ok stackSize heapSize"
    and ok: "permitted st x" and r: "apply_op heapSize x st = Inr st'"
    and before: "mem (snd st) sp = Some slab" and after: "mem (snd st') sp = None"
  shows "(\<exists>i. x = Deallocate (sp, i))
         \<and> sp \<noteq> StackSlab self
         \<and> freeSlots slab + 1 = slabSize slab
         \<and> sp \<in> set (freeSlabHeads (snd st)) = (freeSlots slab \<noteq> 0)
         \<and> sp \<notin> set (freeSlabHeads (snd st'))
         \<and> freeSlotCount (snd st') = freeSlotCount (snd st) + 1 - ucast (slabSize slab)
         \<and> slabs (fst st') = slabs (fst st) - 1
         \<and> mem (snd st') (StackSlab self) \<noteq> None"
proof -
  obtain p a where st: "st = (p, a)" by (cases st)
  obtain p' a' where st': "st' = (p', a')" by (cases st')
  from trace_inv[OF t cfg] st have inv: "state_inv (p, a)" and self: "selfPointer a = self"
    by simp_all
  have hs: "heapSize \<noteq> 0" "unat heapSize < 2 ^ 32" using cfg by (simp_all add: config_ok_def)
  have ai: "alloc_inv a" using inv by (simp add: state_inv_def)
  have m: "mem a sp = Some slab" using before st by simp
  have m': "mem a' sp = None" using after st' by simp
  from apply_op_inv[OF inv hs ok[unfolded st] r[unfolded st]] st'
  have inv': "state_inv (p', a')" and self': "selfPointer a' = self"
    using self by simp_all
  have stack': "mem a' (StackSlab self) \<noteq> None"
    using inv' self' by (auto simp: state_inv_def alloc_inv_def)
  have listed: "sp \<in> set (freeSlabHeads a) = (freeSlots slab \<noteq> 0)"
    using ai m by (auto simp: alloc_inv_def)
  show ?thesis
  proof (cases x)
    case Allocate
    from allocslot_inv[OF inv hs] r Allocate st st' have "dom (mem a) \<subseteq> dom (mem a')"
      by (auto simp: apply_op_def allocate_def)
    with m m' show ?thesis by (auto simp: domIff)
  next
    case (Reserve n)
    have "reserve n (p, a) = Inr (p', a')"
      using r Reserve st st' by (simp add: apply_op_def)
    from reserve_inv(4)[OF inv ok[unfolded st Reserve] this] m m' show ?thesis
      by (auto simp: domIff)
  next
    case (Deallocate s)
    obtain sq i where s: "s = (sq, i)" by (cases s)
    have lv: "live a (sq, i)" using ok Deallocate st s by (simp add: permitted_def)
    then obtain slab' where mq: "mem a sq = Some slab'"
      and i: "i < unat (slabSize slab')" "i \<notin> set (freeHead slab')"
      by (auto simp: live_def split: option.splits)
    have fr: "freeslot (sq, i) True (p, a) = Inr (p', a')"
      using r Deallocate st st' s by (simp add: apply_op_def deallocate_def)
    have ai2: "alloc_inv (push_slot sq i slab' a)" by (rule alloc_inv_push_slot[OF ai mq i])
    from freeslot_result[OF mq fr] show ?thesis
    proof (elim disjE conjE)
      assume dropped: "freeSlots slab' + 1 = slabSize slab'" "sq \<noteq> StackSlab (selfPointer a)"
        "p' = slab_delete (ucast (slabSize slab')) (slab_item_free p)"
        "a' = drop_slab sq slab' (push_slot sq i slab' a)"
      have "sq = sp"
        using m m' dropped(4) by (auto simp: drop_slab_def push_slot_def split: if_splits)
      then have same: "slab' = slab" using m mq by simp
      have "distinct (freeSlabHeads (push_slot sq i slab' a))"
        using ai2 by (simp add: alloc_inv_def)
      then have unl: "sp \<notin> set (freeSlabHeads a')"
        using dropped(4) \<open>sq = sp\<close> by (simp add: drop_slab_def)
      have cnt: "freeSlotCount a' = freeSlotCount a + 1 - ucast (slabSize slab)"
        using dropped(4) same by (simp add: drop_slab_def push_slot_def)
      have pool: "slabs p' = slabs p - 1"
        using dropped(3) by (simp add: slab_delete_def slab_item_free_def)
      show ?thesis
        using Deallocate s \<open>sq = sp\<close> same dropped(1,2) self unl cnt pool stack' listed st st'
        by simp
    next
      assume "a' = push_slot sq i slab' a"
      then have "mem a' sp \<noteq> None" using m by (simp add: push_slot_def)
      with m' show ?thesis by simp
    qed
  qed
qed

theorem slab_released_only_when_empty_witness:
  "trace 1 2 0 pool0 [Allocate, Allocate] two1 \<and> config_ok 1 2
   \<and> permitted two1 (Deallocate (HeapSlab 0, 1))
   \<and> apply_op 2 (Deallocate (HeapSlab 0, 1)) two1 = Inr full1_again
   \<and> mem (snd two1) (HeapSlab 0) = Some \<lparr>slabSize = 2, freeSlots = 1, freeHead = [0]\<rparr>
   \<and> mem (snd full1_again) (HeapSlab 0) = None
   \<and> HeapSlab 0 \<notin> set (freeSlabHeads (snd full1_again))
   \<and> freeSlotCount (snd full1_again) = freeSlotCount (snd two1) + 1 - 2
   \<and> slabs (fst full1_again) = slabs (fst two1) - 1
   \<and> mem (snd full1_again) (StackSlab 0) \<noteq> None"
proof -
  have cfg: "config_ok 1 2" by (simp add: config_ok_def)
  have ok: "permitted two1 (Deallocate (HeapSlab 0, 1))"
    by (simp add: permitted_def live_def two1_def)
  have r: "apply_op 2 (Deallocate (HeapSlab 0, 1)) two1 = Inr full1_again"
    using two1_deallocate by (simp add: apply_op_def)
  have b: "mem (snd two1) (HeapSlab 0) = Some \<lparr>slabSize = 2, freeSlots = 1, freeHead = [0]\<rparr>"
    by (simp add: two1_def)
  have a: "mem (snd full1_again) (HeapSlab 0) = None" by (simp add: full1_again_def)
  from slab_released_only_when_empty[OF trace_two1 cfg ok r b a]
  show ?thesis using trace_two1 cfg ok r b a by simp
qed

section \<open>Allocate, then deallocate\<close>

lemma push_pop:
  assumes inv: "alloc_inv a" and l: "freeSlabHeads a = sp # rest" and m: "mem a sp = Some slab"
  shows "push_slot sp (hd (freeHead slab))
           (slab\<lparr>freeHead := tl (freeHead slab), freeSlots := freeSlots slab - 1\<rparr>)
           (pop_slot sp slab a) = a"
proof -
  note pop = alloc_inv_pop_slot[OF inv l m]
  obtain i nxt where fh: "freeHead slab = i # nxt"
    using pop(2) by (cases "freeHead slab") auto
  have e: "(freeSlots slab = 1) = (freeSlots slab - 1 = 0)" by auto
  let ?slab1 = "slab\<lparr>freeHead := tl (freeHead slab), freeSlots := freeSlots slab - 1\<rparr>"
  have "?slab1\<lparr>freeHead := hd (freeHead slab) # freeHead ?slab1,
                freeSlots := freeSlots ?slab1 + 1\<rparr> = slab"
    using fh by (intro slab_t.equality) simp_all
  then have "mem (push_slot sp (hd (freeHead slab)) ?slab1 (pop_slot sp slab a)) = mem a"
    using m by (simp add: push_slot_def pop_slot_def map_upd_triv)
  moreover have "freeSlabHeads (push_slot sp (hd (freeHead slab)) ?slab1 (pop_slot sp slab a))
      = freeSlabHeads a"
    using l e by (simp add: push_slot_def pop_slot_def)
  ultimately show ?thesis
    by (intro slab_allocator.equality) (simp_all add: push_slot_def pop_slot_def)
qed

lemma list_empty_no_free:
  assumes inv: "alloc_inv a" and l: "freeSlabHeads a = []"
  shows "freeSlotCount a = 0"
proof -
  have z: "\<And>sp slab. mem a sp = Some slab \<Longrightarrow> length (freeHead slab) = 0"
  proof -
    fix sp slab assume m: "mem a sp = Some slab"
    then have "freeSlots slab = 0" using inv l unfolding alloc_inv_def by (metis empty_iff empty_set)
    moreover have "slab_ok slab" using inv m by (auto simp: alloc_inv_def)
    ultimately show "length (freeHead slab) = 0" by (simp add: slab_ok_def)
  qed
  have "free_total a = 0"
    unfolding free_total_def map_total_def using z by (auto simp: domIff)
  then show ?thesis using inv by (simp add: alloc_inv_def)
qed

lemma ucast_ucast_small:
  assumes "unat (sz :: size_t) < 2 ^ 32"
  shows "(ucast (ucast sz :: uint32_t) :: size_t) = sz"
  using assms
  by (simp add: word_unat_eq_iff unsigned_ucast_eq take_bit_nat_eq_self unsigned_take_bit_eq)

lemma roundtrip_listed:
  assumes inv: "state_inv (p, a)" and l: "freeSlabHeads a = sp # rest"
    and idle: "\<not> head_slab_idle a"
  shows "\<exists>s p1 a1. allocslot heapSize (p, a) = Inr (s, p1, a1)
           \<and> freeslot s True (p1, a1) = Inr (p, a)"
proof -
  have ai: "alloc_inv a" using inv by (simp add: state_inv_def)
  obtain slab where m: "mem a sp = Some slab"
    using alloc_inv_listed[OF ai, of sp] l by auto
  let ?i = "hd (freeHead slab)"
  let ?slab1 = "slab\<lparr>freeHead := tl (freeHead slab), freeSlots := freeSlots slab - 1\<rparr>"
  have r: "allocslot heapSize (p, a) = Inr ((sp, ?i), slab_item_allocate p, pop_slot sp slab a)"
    using allocslot_nonempty[OF ai l m, of p] l by (simp add: allocslot_listed)
  have m1: "mem (pop_slot sp slab a) sp = Some ?slab1" by (simp add: pop_slot_def)
  have keep: "\<not> (freeSlots ?slab1 + 1 = slabSize ?slab1
                  \<and> sp \<noteq> StackSlab (selfPointer (pop_slot sp slab a)))"
    using idle l m by (auto simp: head_slab_idle_def pop_slot_def)
  have pp: "slab_item_free (slab_item_allocate p) = p"
    by (simp add: slab_item_free_def slab_item_allocate_def)
  have "freeslot (sp, ?i) True (slab_item_allocate p, pop_slot sp slab a) = Inr (p, a)"
    by (subst freeslot_eq[OF m1]) (simp only: keep simp_thms if_False push_pop[OF ai l m] pp)
  with r show ?thesis by blast
qed

lemma roundtrip_empty:
  assumes inv: "state_inv (p, a)" and l: "freeSlabHeads a = []"
    and hs: "heapSize \<noteq> 0" "unat heapSize < 2 ^ 32"
  shows "\<exists>s p1 a1 p2. allocslot heapSize (p, a) = Inr (s, p1, a1)
           \<and> freeslot s True (p1, a1) = Inr (p2, a)
           \<and> inuse_items p2 = inuse_items p \<and> free_items p2 = free_items p
           \<and> slabs p2 = slabs p"
proof -
  let ?sp = "HeapSlab (next_block p)"
  let ?new = "\<lparr>slabSize = ucast heapSize, freeSlots = ucast heapSize,
                freeHead = rev [0..<unat heapSize]\<rparr> :: slab_t"
  have ai: "alloc_inv a" using inv by (simp add: state_inv_def)
  from addSlab_inv[OF inv hs(2)]
  obtain p1 a1 where ad: "addSlab heapSize (p, a) = Inr (p1, a1)" "state_inv (p1, a1)"
     "mem a1 = (mem a)(?sp \<mapsto> ?new)"
     "mem a ?sp = None"
     "freeSlabHeads a1 = (if heapSize = 0 then freeSlabHeads a else ?sp # freeSlabHeads a)"
     "freeSlotCount a1 = freeSlotCount a + heapSize"
     "allocSlotCount a1 = allocSlotCount a"
     "selfPointer a1 = selfPointer a"
     "inuse_items p1 = inuse_items p"
     "free_items p1 = free_items p + uint heapSize"
     "slabs p1 = slabs p + 1"
    by blast
  have l1: "freeSlabHeads a1 = [?sp]" using ad(5) hs(1) l by simp
  have ai1: "alloc_inv a1" using ad(2) by (simp add: state_inv_def)
  have m1: "mem a1 ?sp = Some ?new" using ad(3) by simp
  let ?i = "hd (freeHead ?new)"
  let ?slab1 = "?new\<lparr>freeHead := tl (freeHead ?new), freeSlots := freeSlots ?new - 1\<rparr>"
  let ?a2 = "pop_slot ?sp ?new a1"
  have r: "allocslot heapSize (p, a) = Inr ((?sp, ?i), slab_item_allocate p1, ?a2)"
    using allocslot_after_addSlab[OF l ad(1)] allocslot_nonempty[OF ai1 l1 m1, of p1] by simp
  have m2: "mem ?a2 ?sp = Some ?slab1" by (simp add: pop_slot_def)
  have restored: "push_slot ?sp ?i ?slab1 ?a2 = a1" by (rule push_pop[OF ai1 l1 m1])
  have f0: "freeSlotCount a = 0" by (rule list_empty_no_free[OF ai l])
  have uu: "(ucast (ucast heapSize :: uint32_t) :: size_t) = heapSize"
    by (rule ucast_ucast_small[OF hs(2)])
  have cond: "freeSlots ?slab1 + 1 = slabSize ?slab1" "?sp \<noteq> StackSlab (selfPointer ?a2)"
    by simp_all
  have listed: "?sp \<in> set (freeSlabHeads a1)" using l1 by simp
  have assert_ok: "\<not> freeSlotCount ?a2 + 1 < ucast (slabSize ?slab1)"
    using ad(6) f0 uu by (simp add: pop_slot_def)
  have dropped: "drop_slab ?sp ?slab1 a1 = a"
  proof (intro slab_allocator.equality)
    show "mem (drop_slab ?sp ?slab1 a1) = mem a"
      using ad(3,4) by (simp add: drop_slab_def fun_upd_idem)
    show "freeSlabHeads (drop_slab ?sp ?slab1 a1) = freeSlabHeads a"
      using l1 l by (simp add: drop_slab_def)
    show "freeSlotCount (drop_slab ?sp ?slab1 a1) = freeSlotCount a"
      using ad(6) uu by (simp add: drop_slab_def)
  qed (use ad(7,8) in \<open>simp_all add: drop_slab_def\<close>)
  let ?p2 = "slab_delete (ucast (slabSize ?slab1)) (slab_item_free (slab_item_allocate p1))"
  have fs: "freeslot (?sp, ?i) True (slab_item_allocate p1, ?a2) = Inr (?p2, a)"
    unfolding freeslot_eq[OF m2] restored using cond listed assert_ok dropped by simp
  have pool: "inuse_items ?p2 = inuse_items p" "free_items ?p2 = free_items p" "slabs ?p2 = slabs p"
    using ad(9,10,11) uu
    by (simp_all add: slab_delete_def slab_item_free_def slab_item_allocate_def)
  show ?thesis
    using r fs pool by blast
qed

lemma trace_reserved9: "trace 4 12 0 pool0 [Reserve 9] reserved9"
proof -
  have "reserve 9 fresh4 = Inr reserved9"
    using addSlab_fresh4 by (simp add: reserve_def reserve_internal_def fresh4_def)
  moreover have "permitted fresh4 (Reserve 9)"
    by (simp add: permitted_def fresh4_def)
  ultimately have "trace 4 12 0 pool0 ([] @ [Reserve 9]) reserved9"
    using trace_fresh4 by (intro trace_op[of _ _ _ _ _ fresh4]) (simp_all add: apply_op_def)
  then show ?thesis by simp
qed

lemma reserved9_allocate: "allocate 12 1 reserved9 = Inr ((HeapSlab 0, 4), reserved9_taken)"
  by (simp add: allocate_def allocslot_def reserved9_def reserved9_taken_def Let_def
      slab_item_allocate_def)

lemma reserved9_deallocate: "deallocate (HeapSlab 0, 4) reserved9_taken = Inr fresh4_again"
  apply (simp add: deallocate_def freeslot_def reserved9_taken_def Let_def slab_item_free_def
      slab_delete_def)
  apply (simp add: fresh4_again_def fun_upd_twist)
  done

section \<open>Clearing a container\<close>

lemma allocslot_cases:
  assumes inv: "state_inv (p, a)" and hs: "heapSize \<noteq> 0" "unat heapSize < 2 ^ 32"
  obtains (listed) sp rest slab where "freeSlabHeads a = sp # rest" "mem a sp = Some slab"
      "allocslot heapSize (p, a) =
         Inr ((sp, hd (freeHead slab)), slab_item_allocate p, pop_slot sp slab a)"
  | (added) p1 a1 where "freeSlabHeads a = []" "state_inv (p1, a1)"
      "mem a1 = (mem a)(HeapSlab (next_block p) \<mapsto>
          \<lparr>slabSize = ucast heapSize, freeSlots = ucast heapSize,
           freeHead = rev [0..<unat heapSize]\<rparr>)"
      "mem a (HeapSlab (next_block p)) = None"
      "freeSlabHeads a1 = [HeapSlab (next_block p)]"
      "selfPointer a1 = selfPointer a"
      "inuse_items p1 = inuse_items p"
      "allocslot heapSize (p, a) =
         Inr ((HeapSlab (next_block p),
               hd (freeHead \<lparr>slabSize = ucast heapSize, freeSlots = ucast heapSize,
                             freeHead = rev [0..<unat heapSize]\<rparr>)),
              slab_item_allocate p1,
              pop_slot (HeapSlab (next_block p))
                \<lparr>slabSize = ucast heapSize, freeSlots = ucast heapSize,
                 freeHead = rev [0..<unat heapSize]\<rparr> a1)"
      "free_items p1 = free_items p + uint heapSize" "slabs p1 = slabs p + 1"
      "allocSlotCount a1 = allocSlotCount a"
proof (cases "freeSlabHeads a")
  case (Cons sp rest)
  have ai: "alloc_inv a" using inv by (simp add: state_inv_def)
  obtain slab where m: "mem a sp = Some slab"
    using alloc_inv_listed[OF ai, of sp] Cons by auto
  have "allocslot heapSize (p, a) =
           Inr ((sp, hd (freeHead slab)), slab_item_allocate p, pop_slot sp slab a)"
    using allocslot_nonempty[OF ai Cons m, of p] Cons by (simp add: allocslot_listed)
  with Cons m show ?thesis by (rule listed)
next
  case Nil
  let ?sp = "HeapSlab (next_block p)"
  let ?new = "\<lparr>slabSize = ucast heapSize, freeSlots = ucast heapSize,
                freeHead = rev [0..<unat heapSize]\<rparr> :: slab_t"
  from addSlab_inv[OF inv hs(2)]
  obtain p1 a1 where ad: "addSlab heapSize (p, a) = Inr (p1, a1)" "state_inv (p1, a1)"
     "mem a1 = (mem a)(?sp \<mapsto> ?new)"
     "mem a ?sp = None"
     "freeSlabHeads a1 = (if heapSize = 0 then freeSlabHeads a else ?sp # freeSlabHeads a)"
     "selfPointer a1 = selfPointer a"
     "inuse_items p1 = inuse_items p"
     "free_items p1 = free_items p + uint heapSize" "slabs p1 = slabs p + 1"
     "allocSlotCount a1 = allocSlotCount a"
    by blast
  have l1: "freeSlabHeads a1 = [?sp]" using ad(5) hs(1) Nil by simp
  have ai1: "alloc_inv a1" using ad(2) by (simp add: state_inv_def)
  have m1: "mem a1 ?sp = Some ?new" using ad(3) by simp
  have "allocslot heapSize (p, a) = Inr ((?sp, hd (freeHead ?new)), slab_item_allocate p1,
          pop_slot ?sp ?new a1)"
    using allocslot_after_addSlab[OF Nil ad(1)] allocslot_nonempty[OF ai1 l1 m1, of p1] by simp
  with Nil ad(2,3,4) l1 ad(6,7) show ?thesis using ad(8,9,10) by (rule added)
qed

lemma slot_total_pop_slot:
  assumes "finite (dom (mem a))" "mem a sp = Some slab"
  shows "slot_total (pop_slot sp slab a) = slot_total a"
  using map_total_upd_old[OF assms, of "\<lambda>s. unat (slabSize s)"
      "slab\<lparr>freeHead := tl (freeHead slab), freeSlots := freeSlots slab - 1\<rparr>"]
  by (simp add: slot_total_def pop_slot_def)

lemma slot_total_push_slot:
  assumes "finite (dom (mem a))" "mem a sp = Some slab"
  shows "slot_total (push_slot sp i slab a) = slot_total a"
  using map_total_upd_old[OF assms, of "\<lambda>s. unat (slabSize s)"
      "slab\<lparr>freeHead := i # freeHead slab, freeSlots := freeSlots slab + 1\<rparr>"]
  by (simp add: slot_total_def push_slot_def)

lemma free_total_pop_slot:
  assumes "finite (dom (mem a))" "mem a sp = Some slab" "freeHead slab \<noteq> []"
  shows "free_total (pop_slot sp slab a) + 1 = free_total a"
proof -
  have "length (tl (freeHead slab)) + 1 = length (freeHead slab)"
    using assms(3) by (cases "freeHead slab") auto
  then show ?thesis
    using map_total_upd_old[OF assms(1,2), of "\<lambda>s. length (freeHead s)"
      "slab\<lparr>freeHead := tl (freeHead slab), freeSlots := freeSlots slab - 1\<rparr>"]
    by (simp add: free_total_def pop_slot_def)
qed

lemma free_total_push_slot:
  assumes "finite (dom (mem a))" "mem a sp = Some slab"
  shows "free_total (push_slot sp i slab a) = free_total a + 1"
  using map_total_upd_old[OF assms, of "\<lambda>s. length (freeHead s)"
      "slab\<lparr>freeHead := i # freeHead slab, freeSlots := freeSlots slab + 1\<rparr>"]
  by (simp add: free_total_def push_slot_def)

lemma totals_drop_slab:
  assumes "finite (dom (mem a))" "mem a sp = Some slab'"
  shows "slot_total (drop_slab sp slab a) + unat (slabSize slab') = slot_total a"
    and "free_total (drop_slab sp slab a) + length (freeHead slab') = free_total a"
  using map_total_del[OF assms, of "\<lambda>s. unat (slabSize s)"]
    map_total_del[OF assms, of "\<lambda>s. length (freeHead s)"]
  by (simp_all add: slot_total_def free_total_def drop_slab_def)

lemma totals_new_slab:
  assumes "finite (dom (mem a))" "mem a sp = None" "mem a1 = (mem a)(sp \<mapsto> slab)"
  shows "slot_total a1 = slot_total a + unat (slabSize slab)"
    and "free_total a1 = free_total a + length (freeHead slab)"
  using map_total_upd_new[OF assms(1,2), of "\<lambda>s. unat (slabSize s)" slab]
    map_total_upd_new[OF assms(1,2), of "\<lambda>s. length (freeHead s)" slab] assms(3)
  by (simp_all add: slot_total_def free_total_def)

lemma free_le_slot_total:
  assumes "alloc_inv a"
  shows "free_total a \<le> slot_total a"
  unfolding free_total_def slot_total_def map_total_def
proof (rule sum_mono)
  fix sp assume "sp \<in> dom (mem a)"
  then obtain slab where m: "mem a sp = Some slab" by auto
  then have "slab_ok slab" using assms by (auto simp: alloc_inv_def)
  from slab_ok_length[OF this] m
  show "length (freeHead (the (mem a sp))) \<le> unat (slabSize (the (mem a sp)))" by simp
qed

lemma slab_full_iff:
  assumes ok: "slab_ok slab"
  shows "(freeSlots slab = slabSize slab) = (\<forall>j < unat (slabSize slab). j \<in> set (freeHead slab))"
proof
  assume "freeSlots slab = slabSize slab"
  then have len: "length (freeHead slab) = unat (slabSize slab)"
    using ok by (simp add: slab_ok_def)
  have sub: "set (freeHead slab) \<subseteq> {..<unat (slabSize slab)}"
    using ok by (auto simp: slab_ok_def)
  have "card (set (freeHead slab)) = length (freeHead slab)"
    using ok by (simp add: slab_ok_def distinct_card)
  then have "card (set (freeHead slab)) = card {..<unat (slabSize slab)}"
    using len by simp
  with sub have "set (freeHead slab) = {..<unat (slabSize slab)}"
    by (intro card_subset_eq) auto
  then show "\<forall>j < unat (slabSize slab). j \<in> set (freeHead slab)" by auto
next
  assume all: "\<forall>j < unat (slabSize slab). j \<in> set (freeHead slab)"
  then have "{..<unat (slabSize slab)} \<subseteq> set (freeHead slab)" by auto
  then have "card {..<unat (slabSize slab)} \<le> card (set (freeHead slab))"
    by (intro card_mono) auto
  then have "unat (slabSize slab) \<le> length (freeHead slab)"
    using card_length[of "freeHead slab"] by simp
  with slab_ok_length[OF ok] have "length (freeHead slab) = unat (slabSize slab)" by simp
  then have "unat (freeSlots slab) = unat (slabSize slab)"
    using ok by (simp add: slab_ok_def)
  then show "freeSlots slab = slabSize slab" by (rule word_unat_eq_iff[THEN iffD2])
qed

lemma pop_slot_not_idle:
  assumes inv: "alloc_inv a" and l: "freeSlabHeads a = sp # rest" and m: "mem a sp = Some slab"
  shows "freeSlots slab - 1 \<noteq> slabSize slab"
proof -
  note pop = alloc_inv_pop_slot[OF inv l m]
  have ok: "slab_ok slab" using inv m by (auto simp: alloc_inv_def)
  have "mem (pop_slot sp slab a) sp
      = Some (slab\<lparr>freeHead := tl (freeHead slab), freeSlots := freeSlots slab - 1\<rparr>)"
    by (simp add: pop_slot_def)
  with pop(1)
  have "slab_ok (slab\<lparr>freeHead := tl (freeHead slab), freeSlots := freeSlots slab - 1\<rparr>)"
    unfolding alloc_inv_def by blast
  then have "unat (freeSlots slab - 1) = length (tl (freeHead slab))"
    by (simp add: slab_ok_def)
  moreover have "length (tl (freeHead slab)) < length (freeHead slab)"
    using pop(2) by (cases "freeHead slab") auto
  ultimately have "unat (freeSlots slab - 1) < unat (slabSize slab)"
    using slab_ok_length[OF ok] by simp
  then show ?thesis by auto
qed

lemma allocslot_clear_inv:
  assumes ci: "clear_inv p0 (p, a)" and hs: "heapSize \<noteq> 0" "unat heapSize < 2 ^ 32"
    and r: "allocslot heapSize (p, a) = Inr (s, p', a')"
  shows "clear_inv p0 (p', a')"
proof -
  have inv: "state_inv (p, a)" using ci by (simp add: clear_inv_def)
  have ni: "no_idle_heap_slab a" using ci by (simp add: clear_inv_def)
  have rel: "inuse_items p + int (free_total a) = inuse_items p0 + int (slot_total a)"
    using ci by (simp add: clear_inv_def)
  from allocslot_inv[OF inv hs] r have inv': "state_inv (p', a')" by auto
  have ai: "alloc_inv a" using inv by (simp add: state_inv_def)
  have fin: "finite (dom (mem a))" using ai by (simp add: alloc_inv_def)
  from inv hs show ?thesis
  proof (cases rule: allocslot_cases)
    case (listed sp rest slab)
    with r have res: "p' = slab_item_allocate p" "a' = pop_slot sp slab a" by simp_all
    note pop = alloc_inv_pop_slot[OF ai listed(1,2)]
    have "no_idle_heap_slab a'"
      using ni pop_slot_not_idle[OF ai listed(1,2)] res(2)
      by (auto simp: no_idle_heap_slab_def pop_slot_def)
    moreover have "inuse_items p' + int (free_total a') = inuse_items p0 + int (slot_total a')"
      using rel free_total_pop_slot[OF fin listed(2) pop(2)] slot_total_pop_slot[OF fin listed(2)]
        res by (simp add: slab_item_allocate_def)
    ultimately show ?thesis using inv' by (simp add: clear_inv_def)
  next
    case (added p1 a1)
    let ?sp = "HeapSlab (next_block p)"
    let ?new = "\<lparr>slabSize = ucast heapSize, freeSlots = ucast heapSize,
                freeHead = rev [0..<unat heapSize]\<rparr> :: slab_t"
    from added(8) r have res: "p' = slab_item_allocate p1" "a' = pop_slot ?sp ?new a1" by simp_all
    have ai1: "alloc_inv a1" using added(2) by (simp add: state_inv_def)
    have fin1: "finite (dom (mem a1))" using ai1 by (simp add: alloc_inv_def)
    have m1: "mem a1 ?sp = Some ?new" using added(3) by simp
    note pop = alloc_inv_pop_slot[OF ai1 added(5) m1]
    note tot = totals_new_slab[OF fin added(4,3)]
    have len: "length (freeHead ?new) = unat (slabSize ?new)"
      using unat_ucast_small[OF hs(2)] by simp
    have "no_idle_heap_slab a'"
      using ni pop_slot_not_idle[OF ai1 added(5) m1] res(2) added(3)
      by (auto simp: no_idle_heap_slab_def pop_slot_def)
    moreover have "inuse_items p' + int (free_total a') = inuse_items p0 + int (slot_total a')"
    proof -
      have A: "free_total a' + 1 = free_total a1"
        unfolding res(2) by (rule free_total_pop_slot[OF fin1 m1 pop(2)])
      have B: "slot_total a' = slot_total a1"
        unfolding res(2) by (rule slot_total_pop_slot[OF fin1 m1])
      have E: "inuse_items p' = inuse_items p + 1"
        unfolding res(1) using added(7) by (simp add: slab_item_allocate_def)
      show ?thesis using rel A B tot len E by linarith
    qed
    ultimately show ?thesis using inv' by (simp add: clear_inv_def)
  qed
qed

lemma live_push_slot:
  assumes m: "mem a sp = Some slab"
  shows "live (push_slot sp i slab a) s' \<longleftrightarrow> live a s' \<and> s' \<noteq> (sp, i)"
proof (cases "fst s' = sp")
  case True
  then show ?thesis using m by (cases s') (auto simp: live_def push_slot_def)
next
  case False
  then show ?thesis by (cases s') (auto simp: live_def push_slot_def)
qed

lemma unat_ucast_up32: "unat (ucast (w :: uint32_t) :: size_t) = unat w"
  by (simp add: unsigned_ucast_eq take_bit_nat_eq_self_iff)
     (rule less_trans[OF unsigned_less], simp)

lemma freeslot_clear_inv:
  assumes ci: "clear_inv p0 (p, a)" and lv: "live a s"
    and r0: "freeslot s True (p, a) = Inr (p', a')"
  shows "clear_inv p0 (p', a') \<and> slot_total a' \<le> slot_total a
           \<and> (\<forall>s'. live a' s' \<longleftrightarrow> live a s' \<and> s' \<noteq> s)
           \<and> inuse_items p' = inuse_items p - 1
           \<and> selfPointer a' = selfPointer a"
proof -
  obtain sp i where s: "s = (sp, i)" by (cases s)
  from lv s obtain slab where m: "mem a sp = Some slab"
    and i: "i < unat (slabSize slab)" "i \<notin> set (freeHead slab)"
    by (auto simp: live_def split: option.splits)
  have inv: "state_inv (p, a)" and ni: "no_idle_heap_slab a"
    and rel: "inuse_items p + int (free_total a) = inuse_items p0 + int (slot_total a)"
    using ci by (simp_all add: clear_inv_def)
  have ai: "alloc_inv a" using inv by (simp add: state_inv_def)
  have fin: "finite (dom (mem a))" using ai by (simp add: alloc_inv_def)
  have ok: "slab_ok slab" using ai m by (auto simp: alloc_inv_def)
  let ?slab1 = "slab\<lparr>freeHead := i # freeHead slab, freeSlots := freeSlots slab + 1\<rparr>"
  let ?a2 = "push_slot sp i slab a"
  note push = slab_ok_push[OF ok i]
  have ai2: "alloc_inv ?a2" by (rule alloc_inv_push_slot[OF ai m i])
  have fin2: "finite (dom (mem ?a2))" using ai2 by (simp add: alloc_inv_def)
  have m2: "mem ?a2 sp = Some ?slab1" by (simp add: push_slot_def)
  have self2: "selfPointer ?a2 = selfPointer a" by (simp add: push_slot_def)
  have ft2: "free_total ?a2 = free_total a + 1" by (rule free_total_push_slot[OF fin m])
  have st2: "slot_total ?a2 = slot_total a" by (rule slot_total_push_slot[OF fin m])
  have lv2: "\<And>s'. live ?a2 s' \<longleftrightarrow> live a s' \<and> s' \<noteq> s"
    unfolding s by (rule live_push_slot[OF m])
  have pf: "inuse_items (slab_item_free p) = inuse_items p - 1"
    by (simp add: slab_item_free_def)
  note e = freeslot_eq[OF m, of i True p]
  show ?thesis
  proof (cases "freeSlots slab + 1 = slabSize slab \<and> sp \<noteq> StackSlab (selfPointer a)")
    case False
    have r: "freeslot s True (p, a) = Inr (slab_item_free p, ?a2)"
      unfolding s e by (simp only: False simp_thms if_False)
    with r0 have res: "p' = slab_item_free p" "a' = ?a2" by simp_all
    from freeslot_inv(1)[OF inv lv r] have inv': "state_inv (slab_item_free p, ?a2)" .
    have ni': "no_idle_heap_slab ?a2"
      unfolding no_idle_heap_slab_def
    proof (intro allI impI)
      fix h slab' assume a: "mem ?a2 (HeapSlab h) = Some slab'"
      show "freeSlots slab' \<noteq> slabSize slab'"
      proof (cases "HeapSlab h = sp")
        case True
        with a m2 have "slab' = ?slab1" by simp
        with False True show ?thesis by auto
      next
        case ne: False
        with a have "mem a (HeapSlab h) = Some slab'" by (simp add: push_slot_def)
        with ni show ?thesis by (simp add: no_idle_heap_slab_def)
      qed
    qed
    have rel': "inuse_items (slab_item_free p) + int (free_total ?a2)
        = inuse_items p0 + int (slot_total ?a2)"
      using rel ft2 st2 pf by linarith
    have "clear_inv p0 (slab_item_free p, ?a2)"
      using inv' ni' rel' by (simp add: clear_inv_def)
    then show ?thesis
      unfolding res using st2 lv2 pf self2 by auto
  next
    case True
    have full: "freeSlots ?slab1 = slabSize ?slab1" using True by simp
    let ?p' = "slab_delete (ucast (slabSize slab)) (slab_item_free p)"
    let ?a' = "drop_slab sp slab ?a2"
    from freeslot_result[OF m r0[unfolded s]] True
    have res: "p' = ?p'" "a' = ?a'" by auto
    have r: "freeslot s True (p, a) = Inr (?p', ?a')" using r0 res by simp
    have len1: "length (freeHead ?slab1) = unat (slabSize slab)"
      using push(1) full by (simp add: slab_ok_def)
    from freeslot_inv(1)[OF inv lv r] have inv': "state_inv (?p', ?a')" .
    have ni': "no_idle_heap_slab ?a'"
      using ni by (auto simp: no_idle_heap_slab_def drop_slab_def push_slot_def split: if_splits)
    note td = totals_drop_slab[OF fin2 m2, of slab]
    have sl1: "unat (slabSize ?slab1) = unat (slabSize slab)" by simp
    have pd: "inuse_items ?p' = inuse_items p - 1"
      by (simp add: slab_delete_def slab_item_free_def)
    have rel': "inuse_items ?p' + int (free_total ?a') = inuse_items p0 + int (slot_total ?a')"
      using rel ft2 st2 td len1 sl1 pd by linarith
    have le: "slot_total ?a' \<le> slot_total a" using td(1) st2 by linarith
    have all_free: "\<forall>j < unat (slabSize ?slab1). j \<in> set (freeHead ?slab1)"
      using slab_full_iff[OF push(1)] full by blast
    have lv': "\<And>s'. live ?a' s' \<longleftrightarrow> live a s' \<and> s' \<noteq> s"
    proof -
      fix s'
      show "live ?a' s' \<longleftrightarrow> live a s' \<and> s' \<noteq> s"
      proof (cases "fst s' = sp")
        case True
        then have "\<not> live ?a' s'" by (simp add: live_def drop_slab_def)
        moreover have "\<not> live ?a2 s'"
          using True m2 all_free by (auto simp: live_def)
        ultimately show ?thesis using lv2 by simp
      next
        case False
        then have "live ?a' s' = live ?a2 s'" by (simp add: live_def drop_slab_def)
        then show ?thesis using lv2 by simp
      qed
    qed
    have self': "selfPointer ?a' = selfPointer a" by (simp add: drop_slab_def push_slot_def)
    have "clear_inv p0 (?p', ?a')"
      using inv' ni' rel' by (simp add: clear_inv_def)
    then show ?thesis
      unfolding res using le lv' pd self' by blast
  qed
qed

lemma freeslot_succeeds:
  assumes inv: "state_inv (p, a)" and lv: "live a s" and bound: "slot_total a < 2 ^ 64"
  shows "\<exists>p' a'. freeslot s True (p, a) = Inr (p', a')"
proof -
  obtain sp i where s: "s = (sp, i)" by (cases s)
  from lv s obtain slab where m: "mem a sp = Some slab"
    and i: "i < unat (slabSize slab)" "i \<notin> set (freeHead slab)"
    by (auto simp: live_def split: option.splits)
  have ai: "alloc_inv a" using inv by (simp add: state_inv_def)
  have fin: "finite (dom (mem a))" using ai by (simp add: alloc_inv_def)
  have ok: "slab_ok slab" using ai m by (auto simp: alloc_inv_def)
  let ?slab1 = "slab\<lparr>freeHead := i # freeHead slab, freeSlots := freeSlots slab + 1\<rparr>"
  let ?a2 = "push_slot sp i slab a"
  note push = slab_ok_push[OF ok i]
  have ai2: "alloc_inv ?a2" by (rule alloc_inv_push_slot[OF ai m i])
  have fin2: "finite (dom (mem ?a2))" using ai2 by (simp add: alloc_inv_def)
  have m2: "mem ?a2 sp = Some ?slab1" by (simp add: push_slot_def)
  have st2: "slot_total ?a2 = slot_total a" by (rule slot_total_push_slot[OF fin m])
  note e = freeslot_eq[OF m, of i True p]
  show ?thesis
  proof (cases "freeSlots slab + 1 = slabSize slab \<and> sp \<noteq> StackSlab (selfPointer a)")
    case False
    have "freeslot s True (p, a) = Inr (slab_item_free p, ?a2)"
      unfolding s e by (simp only: False simp_thms if_False)
    then show ?thesis by blast
  next
    case True
    have full: "freeSlots ?slab1 = slabSize ?slab1" using True by simp
    have "freeSlots ?slab1 \<noteq> 0" using push(2) by simp
    with m2 have "\<exists>s. mem ?a2 sp = Some s \<and> freeSlots s \<noteq> 0" by blast
    moreover have "\<And>q. q \<in> set (freeSlabHeads ?a2)
        \<longleftrightarrow> (\<exists>s. mem ?a2 q = Some s \<and> freeSlots s \<noteq> 0)"
      using ai2 by (simp add: alloc_inv_def)
    ultimately have listed: "sp \<in> set (freeSlabHeads ?a2)" by blast
    have len1: "length (freeHead ?slab1) = unat (slabSize slab)"
      using push(1) full by (simp add: slab_ok_def)
    have "free_total ?a2 \<le> slot_total ?a2" by (rule free_le_slot_total[OF ai2])
    then have "free_total ?a2 < 2 ^ 64" using st2 bound by simp
    moreover have "freeSlotCount ?a2 = of_nat (free_total ?a2)"
      using ai2 by (simp add: alloc_inv_def)
    ultimately have "unat (freeSlotCount ?a2) = free_total ?a2"
      by (simp add: unat_of_nat)
    moreover have "length (freeHead ?slab1) \<le> free_total ?a2"
      unfolding free_total_def by (rule map_total_ge[OF fin2 m2])
    moreover have "freeSlotCount ?a2 = freeSlotCount a + 1" by (simp add: push_slot_def)
    ultimately have assert_ok: "\<not> freeSlotCount a + 1 < ucast (slabSize slab)"
      using len1 by (simp add: word_less_nat_alt unat_ucast_up32)
    show ?thesis
      unfolding s e using True listed assert_ok by simp
  qed
qed

lemma no_reserve_snoc: "no_reserve (ops @ [x]) \<longleftrightarrow> no_reserve ops \<and> (\<forall>n. x \<noteq> Reserve n)"
  by (auto simp: no_reserve_def)

lemma trace_clear_inv:
  assumes "trace stackSize heapSize self p0 ops st" "config_ok stackSize heapSize"
    "no_reserve ops"
  shows "clear_inv p0 st"
  using assms
proof (induction rule: trace.induct)
  case (trace_ctor st)
  then have sz: "unat stackSize < 2 ^ 32" by (simp add: config_ok_def)
  let ?new = "\<lparr>slabSize = ucast stackSize, freeSlots = ucast stackSize,
                freeHead = rev [0..<unat stackSize]\<rparr> :: slab_t"
  from ctor_inv[OF sz, of self p0] trace_ctor(1)
  obtain p' a' where c: "st = (p', a')" "state_inv (p', a')"
     "mem a' = [StackSlab self \<mapsto> ?new]" "inuse_items p' = inuse_items p0"
    by auto
  have "no_idle_heap_slab a'" using c(3) by (simp add: no_idle_heap_slab_def)
  moreover have "slot_total a' = unat stackSize"
    using c(3) unat_ucast_small[OF sz] by (simp add: slot_total_def map_total_def)
  moreover have "free_total a' = unat stackSize"
    using c(3) by (simp add: free_total_def map_total_def)
  ultimately show ?case using c by (simp add: clear_inv_def)
next
  case (trace_op ops st x st')
  then have hs: "heapSize \<noteq> 0" "unat heapSize < 2 ^ 32" by (simp_all add: config_ok_def)
  from trace_op have nr: "no_reserve ops" and x: "\<And>n. x \<noteq> Reserve n"
    by (simp_all add: no_reserve_snoc)
  from trace_op(4)[OF trace_op(5) nr] have ci: "clear_inv p0 st" .
  obtain p a where st: "st = (p, a)" by (cases st)
  obtain p' a' where st': "st' = (p', a')" by (cases st')
  show ?case
  proof (cases x)
    case Allocate
    with trace_op(3) st st' obtain s where "allocslot heapSize (p, a) = Inr (s, p', a')"
      by (auto simp: apply_op_def allocate_def split: sum.splits)
    from allocslot_clear_inv[OF ci[unfolded st] hs this] show ?thesis by (simp add: st')
  next
    case (Deallocate s)
    with trace_op(2,3) st st' have "live a s" "freeslot s True (p, a) = Inr (p', a')"
      by (simp_all add: apply_op_def deallocate_def permitted_def)
    from freeslot_clear_inv[OF ci[unfolded st] this] show ?thesis by (simp add: st')
  next
    case (Reserve n)
    with x[of n] show ?thesis by blast
  qed
qed

lemma deallocate_all_clear:
  assumes "clear_inv p0 (p, a)" "distinct ps" "set ps = {s. live a s}" "slot_total a < 2 ^ 64"
  shows "\<exists>p' a'. deallocate_all ps (p, a) = Inr (p', a') \<and> clear_inv p0 (p', a')
           \<and> (\<forall>s. \<not> live a' s) \<and> selfPointer a' = selfPointer a
           \<and> inuse_items p' = inuse_items p - int (length ps)"
  using assms
proof (induction ps arbitrary: p a)
  case Nil
  then show ?case by simp
next
  case (Cons s ps)
  have lv: "live a s" using Cons.prems(3) by auto
  have inv: "state_inv (p, a)" using Cons.prems(1) by (simp add: clear_inv_def)
  from freeslot_succeeds[OF inv lv Cons.prems(4)]
  obtain p1 a1 where r: "freeslot s True (p, a) = Inr (p1, a1)" by blast
  note fc = freeslot_clear_inv[OF Cons.prems(1) lv r]
  have st: "clear_inv p0 (p1, a1)" "slot_total a1 \<le> slot_total a"
    "\<And>s'. live a1 s' \<longleftrightarrow> live a s' \<and> s' \<noteq> s"
    "inuse_items p1 = inuse_items p - 1" "selfPointer a1 = selfPointer a"
    using fc by blast+
  have "set ps = {s'. live a1 s'}"
    using Cons.prems(2,3) st(3) by auto
  moreover have "slot_total a1 < 2 ^ 64" using st(2) Cons.prems(4) by simp
  moreover have "distinct ps" using Cons.prems(2) by simp
  ultimately obtain p' a' where
    rest: "deallocate_all ps (p1, a1) = Inr (p', a')" "clear_inv p0 (p', a')"
      "\<forall>s. \<not> live a' s" "selfPointer a' = selfPointer a1"
      "inuse_items p' = inuse_items p1 - int (length ps)"
    using Cons.IH[OF st(1)] by blast
  have "deallocate_all (s # ps) (p, a) = Inr (p', a')"
    using r rest(1) by (simp add: deallocate_def)
  moreover have "inuse_items p' = inuse_items p - int (length (s # ps))"
    using rest(5) st(4) by simp
  moreover have "selfPointer a' = selfPointer a" using rest(4) st(5) by simp
  ultimately show ?case using rest(2,3) by blast
qed

lemma no_live_only_stack:
  assumes ai: "alloc_inv a" and ni: "no_idle_heap_slab a" and nl: "\<forall>s. \<not> live a s"
  shows "dom (mem a) = {StackSlab (selfPointer a)}" and "free_total a = slot_total a"
proof -
  have stk: "\<forall>k. mem a (StackSlab k) \<noteq> None \<longrightarrow> k = selfPointer a"
    and pres: "mem a (StackSlab (selfPointer a)) \<noteq> None"
    using ai by (simp_all add: alloc_inv_def)
  have oks: "\<And>sp slab. mem a sp = Some slab \<Longrightarrow> slab_ok slab"
    using ai unfolding alloc_inv_def by blast
  have full: "\<And>sp slab. mem a sp = Some slab \<Longrightarrow> freeSlots slab = slabSize slab"
  proof -
    fix sp slab assume m: "mem a sp = Some slab"
    then have ok: "slab_ok slab" by (rule oks)
    have "\<forall>j < unat (slabSize slab). j \<in> set (freeHead slab)"
    proof (intro allI impI)
      fix j assume "j < unat (slabSize slab)"
      with nl[rule_format, of "(sp, j)"] m show "j \<in> set (freeHead slab)"
        by (simp add: live_def)
    qed
    then show "freeSlots slab = slabSize slab" using slab_full_iff[OF ok] by blast
  qed
  have "\<And>sp. sp \<in> dom (mem a) \<Longrightarrow> sp = StackSlab (selfPointer a)"
  proof -
    fix sp assume "sp \<in> dom (mem a)"
    then obtain slab where m: "mem a sp = Some slab" by auto
    show "sp = StackSlab (selfPointer a)"
    proof (cases sp)
      case (StackSlab k)
      with m stk show ?thesis by simp
    next
      case (HeapSlab h)
      with m ni have "freeSlots slab \<noteq> slabSize slab"
        unfolding no_idle_heap_slab_def by blast
      with full[OF m] show ?thesis by simp
    qed
  qed
  moreover have "StackSlab (selfPointer a) \<in> dom (mem a)"
    using pres by (simp add: domIff)
  ultimately show "dom (mem a) = {StackSlab (selfPointer a)}" by blast
  show "free_total a = slot_total a"
    unfolding free_total_def slot_total_def map_total_def
  proof (rule sum.cong[OF refl])
    fix sp assume "sp \<in> dom (mem a)"
    then obtain slab where m: "mem a sp = Some slab" by auto
    then have ok: "slab_ok slab" by (rule oks)
    then have "length (freeHead slab) = unat (slabSize slab)"
      using full[OF m] by (simp add: slab_ok_def)
    with m show "length (freeHead (the (mem a sp))) = unat (slabSize (the (mem a sp)))" by simp
  qed
qed

lemma two1_live: "{s. live (snd two1) s} = set [(StackSlab 0, 0), (HeapSlab 0, 1)]"
proof (rule set_eqI)
  fix s :: slot_ptr
  obtain sp j where s: "s = (sp, j)" by (cases s)
  have l1: "live (snd two1) (StackSlab 0, j) = (j = 0)"
    by (simp add: live_def two1_def)
  have "live (snd two1) (HeapSlab 0, j) = (j < 2 \<and> j \<noteq> 0)"
    by (simp add: live_def two1_def)
  then have l2: "live (snd two1) (HeapSlab 0, j) = (j = 1)" by arith
  have l3: "\<not> live (snd two1) (sp, j)" if "sp \<noteq> StackSlab 0" "sp \<noteq> HeapSlab 0"
    using that by (simp add: live_def two1_def)
  show "s \<in> {s. live (snd two1) s} \<longleftrightarrow> s \<in> set [(StackSlab 0, 0), (HeapSlab 0, 1)]"
  proof (cases "sp = StackSlab 0")
    case True
    then show ?thesis using l1 s by simp
  next
    case False
    show ?thesis
    proof (cases "sp = HeapSlab 0")
      case True
      then show ?thesis using l2 s by simp
    next
      case h: False
      then show ?thesis using l3[OF False h] False s by simp
    qed
  qed
qed

lemma two1_slot_total: "slot_total (snd two1) = 3"
proof -
  have m: "mem (snd two1) = [StackSlab 0 \<mapsto> \<lparr>slabSize = 1, freeSlots = 0, freeHead = []\<rparr>,
              HeapSlab 0 \<mapsto> \<lparr>slabSize = 2, freeSlots = 1, freeHead = [0]\<rparr>]"
    by (simp add: two1_def)
  have "slot_total (snd two1) = 0 + 1 + 2"
    unfolding slot_total_def m
    by (subst map_total_upd_new, simp, simp)+ (simp add: map_total_def)
  then show ?thesis by simp
qed

section \<open>One allocation, one deallocation\<close>

lemma live_pop_slot_iff:
  assumes inv: "alloc_inv a" and l: "freeSlabHeads a = sp # rest" and m: "mem a sp = Some slab"
  shows "live (pop_slot sp slab a) s' \<longleftrightarrow> live a s' \<or> s' = (sp, hd (freeHead slab))"
proof -
  note pop = alloc_inv_pop_slot[OF inv l m]
  obtain i nxt where fh: "freeHead slab = i # nxt"
    using pop(2) by (cases "freeHead slab") auto
  have ok: "slab_ok slab" using inv m by (auto simp: alloc_inv_def)
  then have i: "i < unat (slabSize slab)" "i \<notin> set nxt"
    using fh by (auto simp: slab_ok_def)
  show ?thesis
  proof (cases "fst s' = sp")
    case True
    then show ?thesis using m fh i by (cases s') (auto simp: live_def pop_slot_def)
  next
    case False
    then show ?thesis by (cases s') (auto simp: live_def pop_slot_def)
  qed
qed

lemma live_new_slab:
  assumes "mem a sp = None"
    "mem a1 = (mem a)(sp \<mapsto> \<lparr>slabSize = ucast heapSize, freeSlots = ucast heapSize,
           freeHead = rev [0..<unat heapSize]\<rparr>)"
    "unat (heapSize :: size_t) < 2 ^ 32"
  shows "live a1 s' \<longleftrightarrow> live a s'"
proof (cases "fst s' = sp")
  case True
  then show ?thesis
    using assms(1,2) unat_ucast_small[OF assms(3)] by (cases s') (simp add: live_def)
next
  case False
  then show ?thesis using assms(2) by (cases s') (simp add: live_def)
qed

lemma allocslot_step:
  assumes inv: "state_inv (p, a)" and hs: "heapSize \<noteq> 0" "unat heapSize < 2 ^ 32"
    and r: "allocslot heapSize (p, a) = Inr (s, p', a')"
  shows "state_inv (p', a')" and "\<And>s'. live a' s' \<longleftrightarrow> live a s' \<or> s' = s"
    and "\<not> live a s" and "inuse_items p' = inuse_items p + 1"
    and "selfPointer a' = selfPointer a" and "next_block p \<le> next_block p'"
proof -
  have ai: "alloc_inv a" using inv by (simp add: state_inv_def)
  from allocslot_inv[OF inv hs] r
  show "state_inv (p', a')" "\<not> live a s" "selfPointer a' = selfPointer a" by auto
  have "(\<forall>s'. live a' s' \<longleftrightarrow> live a s' \<or> s' = s) \<and> inuse_items p' = inuse_items p + 1
        \<and> next_block p \<le> next_block p'"
    using inv hs
  proof (cases rule: allocslot_cases)
    case (listed sp rest slab)
    with r have res: "s = (sp, hd (freeHead slab))" "p' = slab_item_allocate p"
      "a' = pop_slot sp slab a" by simp_all
    show ?thesis
      unfolding res using live_pop_slot_iff[OF ai listed(1,2)]
      by (simp add: slab_item_allocate_def)
  next
    case (added p1 a1)
    let ?sp = "HeapSlab (next_block p)"
    let ?new = "\<lparr>slabSize = ucast heapSize, freeSlots = ucast heapSize,
                freeHead = rev [0..<unat heapSize]\<rparr> :: slab_t"
    from added(8) r have res: "s = (?sp, hd (freeHead ?new))" "p' = slab_item_allocate p1"
      "a' = pop_slot ?sp ?new a1" by simp_all
    have ai1: "alloc_inv a1" using added(2) by (simp add: state_inv_def)
    have m1: "mem a1 ?sp = Some ?new" using added(3) by simp
    have nb: "next_block p \<le> next_block p1"
      using added(2,3) by (auto simp: state_inv_def fresh_for_def intro: less_imp_le)
    have l: "\<And>s'. live a1 s' \<longleftrightarrow> live a s'"
      by (rule live_new_slab[OF added(4,3) hs(2)])
    show ?thesis
      unfolding res using live_pop_slot_iff[OF ai1 added(5) m1] l added(7) nb
      by (simp add: slab_item_allocate_def)
  qed
  then show "\<And>s'. live a' s' \<longleftrightarrow> live a s' \<or> s' = s" "inuse_items p' = inuse_items p + 1"
    "next_block p \<le> next_block p'" by blast+
qed

lemma freeslot_step:
  assumes inv: "state_inv (p, a)" and lv: "live a s"
    and r0: "freeslot s True (p, a) = Inr (p', a')"
  shows "state_inv (p', a')" and "slot_total a' \<le> slot_total a"
    and "\<And>s'. live a' s' \<longleftrightarrow> live a s' \<and> s' \<noteq> s"
    and "inuse_items p' = inuse_items p - 1"
    and "selfPointer a' = selfPointer a" and "next_block p' = next_block p"
proof -
  from freeslot_inv[OF inv lv r0]
  show "state_inv (p', a')" "selfPointer a' = selfPointer a" "next_block p' = next_block p"
    by simp_all
  obtain sp i where s: "s = (sp, i)" by (cases s)
  from lv s obtain slab where m: "mem a sp = Some slab"
    and i: "i < unat (slabSize slab)" "i \<notin> set (freeHead slab)"
    by (auto simp: live_def split: option.splits)
  have ai: "alloc_inv a" using inv by (simp add: state_inv_def)
  have fin: "finite (dom (mem a))" using ai by (simp add: alloc_inv_def)
  have ok: "slab_ok slab" using ai m by (auto simp: alloc_inv_def)
  let ?slab1 = "slab\<lparr>freeHead := i # freeHead slab, freeSlots := freeSlots slab + 1\<rparr>"
  let ?a2 = "push_slot sp i slab a"
  note push = slab_ok_push[OF ok i]
  have ai2: "alloc_inv ?a2" by (rule alloc_inv_push_slot[OF ai m i])
  have fin2: "finite (dom (mem ?a2))" using ai2 by (simp add: alloc_inv_def)
  have m2: "mem ?a2 sp = Some ?slab1" by (simp add: push_slot_def)
  have st2: "slot_total ?a2 = slot_total a" by (rule slot_total_push_slot[OF fin m])
  have lv2: "\<And>s'. live ?a2 s' \<longleftrightarrow> live a s' \<and> s' \<noteq> s"
    unfolding s by (rule live_push_slot[OF m])
  have "slot_total a' \<le> slot_total a \<and> (\<forall>s'. live a' s' \<longleftrightarrow> live a s' \<and> s' \<noteq> s)
        \<and> inuse_items p' = inuse_items p - 1"
    using freeslot_result[OF m r0[unfolded s]]
  proof (elim disjE conjE)
    assume res: "p' = slab_item_free p" "a' = ?a2"
    show ?thesis
      unfolding res using st2 lv2 by (simp add: slab_item_free_def)
  next
    assume full: "freeSlots slab + 1 = slabSize slab"
      and res: "p' = slab_delete (ucast (slabSize slab)) (slab_item_free p)"
        "a' = drop_slab sp slab ?a2"
    have full1: "freeSlots ?slab1 = slabSize ?slab1" using full by simp
    note td = totals_drop_slab[OF fin2 m2, of slab]
    have le: "slot_total (drop_slab sp slab ?a2) \<le> slot_total a" using td(1) st2 by linarith
    have all_free: "\<forall>j < unat (slabSize ?slab1). j \<in> set (freeHead ?slab1)"
      using slab_full_iff[OF push(1)] full1 by blast
    have lv': "live (drop_slab sp slab ?a2) s' \<longleftrightarrow> live a s' \<and> s' \<noteq> s" for s'
    proof (cases "fst s' = sp")
      case True
      then have "\<not> live (drop_slab sp slab ?a2) s'" by (simp add: live_def drop_slab_def)
      moreover have "\<not> live ?a2 s'"
        using True m2 all_free by (auto simp: live_def)
      ultimately show ?thesis using lv2 by simp
    next
      case False
      then have "live (drop_slab sp slab ?a2) s' = live ?a2 s'"
        by (simp add: live_def drop_slab_def)
      then show ?thesis using lv2 by simp
    qed
    show ?thesis
      unfolding res using le lv' by (simp add: slab_delete_def slab_item_free_def)
  qed
  then show "slot_total a' \<le> slot_total a" "\<And>s'. live a' s' \<longleftrightarrow> live a s' \<and> s' \<noteq> s"
    "inuse_items p' = inuse_items p - 1"
    by blast+
qed

section \<open>The vector allocator returns its inline array\<close>

text \<open>
  Claim C10. For counts \<open>c1\<close> and \<open>c2\<close> up to \<^verbatim>\<open>stackSize\<close>, \<^verbatim>\<open>allocate(c1)\<close> returns
  the inline array and leaves the pool unchanged, a following \<^verbatim>\<open>allocate(c2)\<close>, with
  the first allocation still outstanding, returns the same pointer, and
  \<^verbatim>\<open>deallocate\<close> of that pointer changes nothing, whatever its size argument.
\<close>

theorem inline_allocations_alias:
  assumes "c1 \<le> stackSize" "c2 \<le> stackSize"
  shows "slab_vector_allocator_allocate stackSize this c1 p = (StackSlot this, p)
         \<and> slab_vector_allocator_allocate stackSize this c2
              (snd (slab_vector_allocator_allocate stackSize this c1 p))
            = slab_vector_allocator_allocate stackSize this c1 p
         \<and> slab_vector_allocator_deallocate this
              (fst (slab_vector_allocator_allocate stackSize this c1 p)) s p' = p'"
  using assms
  by (simp add: slab_vector_allocator_allocate_def slab_vector_allocator_deallocate_def)

theorem inline_allocations_alias_witness:
  "(2 :: size_t) \<le> 4 \<and> (4 :: size_t) \<le> 4
   \<and> slab_vector_allocator_allocate 4 0 2 pool0 = (StackSlot 0, pool0)
   \<and> slab_vector_allocator_allocate 4 0 4 (snd (slab_vector_allocator_allocate 4 0 2 pool0))
        = (StackSlot 0, pool0)
   \<and> slab_vector_allocator_deallocate 0 (StackSlot 0) 7 pool0 = pool0"
proof -
  have a: "(2 :: size_t) \<le> 4" and b: "(4 :: size_t) \<le> 4" by simp_all
  note t = inline_allocations_alias[OF a b, of 0 pool0 7 pool0]
  have t1: "slab_vector_allocator_allocate 4 0 2 pool0 = (StackSlot 0, pool0)"
    using t by (rule conjunct1)
  have t2: "slab_vector_allocator_allocate 4 0 4 (snd (slab_vector_allocator_allocate 4 0 2 pool0))
        = slab_vector_allocator_allocate 4 0 2 pool0"
    using t by (rule conjunct1[OF conjunct2])
  have t3: "slab_vector_allocator_deallocate 0
              (fst (slab_vector_allocator_allocate 4 0 2 pool0)) 7 pool0 = pool0"
    using t by (rule conjunct2[OF conjunct2])
  show ?thesis
    using a b t2 t3 unfolding t1 by simp
qed

section \<open>Clearing a container: what the pool gets back\<close>

lemma pool_inv_new_slab:
  assumes inv: "state_inv (p, a)" and pi: "pool_inv p0 (p, a)" and sz: "unat (sz :: size_t) < 2 ^ 32"
    and r: "addSlab sz (p, a) = Inr (p1, a1)"
  shows "pool_inv p0 (p1, a1)"
proof -
  let ?sp = "HeapSlab (next_block p)"
  let ?new = "\<lparr>slabSize = ucast sz, freeSlots = ucast sz, freeHead = rev [0..<unat sz]\<rparr> :: slab_t"
  have fin: "finite (dom (mem a))" using inv by (simp add: state_inv_def alloc_inv_def)
  from addSlab_inv[OF inv sz] r
  have ad: "mem a1 = (mem a)(?sp \<mapsto> ?new)" "mem a ?sp = None"
     "allocSlotCount a1 = allocSlotCount a" "selfPointer a1 = selfPointer a"
     "free_items p1 = free_items p + uint sz" "slabs p1 = slabs p + 1"
    by auto
  note tot = totals_new_slab[OF fin ad(2,1)]
  have ft: "int (free_total a1) = int (free_total a) + uint sz"
    using tot(2) by simp
  have "dom (mem a1) = insert ?sp (dom (mem a))" using ad(1) by simp
  moreover have "?sp \<notin> dom (mem a)" using ad(2) by (simp add: domIff)
  ultimately have cd: "card (dom (mem a1)) = card (dom (mem a)) + 1" using fin by simp
  have stack: "mem a1 (StackSlab (selfPointer a1)) = mem a (StackSlab (selfPointer a))"
    using ad(1,4) by simp
  show ?thesis
    using pi ft cd stack ad(3,5,6) by (simp add: pool_inv_def)
qed

lemma pool_inv_pop_slot:
  assumes inv: "state_inv (p, a)" and pi: "pool_inv p0 (p, a)"
    and l: "freeSlabHeads a = sp # rest" and m: "mem a sp = Some slab"
  shows "pool_inv p0 (slab_item_allocate p, pop_slot sp slab a)"
proof -
  have ai: "alloc_inv a" using inv by (simp add: state_inv_def)
  have fin: "finite (dom (mem a))" using ai by (simp add: alloc_inv_def)
  note pop = alloc_inv_pop_slot[OF ai l m]
  have ft: "free_total (pop_slot sp slab a) + 1 = free_total a"
    by (rule free_total_pop_slot[OF fin m pop(2)])
  have "dom (mem (pop_slot sp slab a)) = insert sp (dom (mem a))" by (simp add: pop_slot_def)
  moreover have "sp \<in> dom (mem a)" using m by (simp add: domIff)
  ultimately have d: "dom (mem (pop_slot sp slab a)) = dom (mem a)"
    by (simp add: insert_absorb)
  from pi obtain stk where stk: "mem a (StackSlab (selfPointer a)) = Some stk"
      "slabSize stk = ucast (allocSlotCount a)"
    unfolding pool_inv_def by auto
  have stack: "\<exists>slab'. mem (pop_slot sp slab a) (StackSlab (selfPointer (pop_slot sp slab a)))
                  = Some slab'
                \<and> slabSize slab' = ucast (allocSlotCount (pop_slot sp slab a))"
  proof (cases "sp = StackSlab (selfPointer a)")
    case True
    with m stk have "slab = stk" by simp
    with True stk(2) show ?thesis by (simp add: pop_slot_def)
  next
    case False
    with stk show ?thesis by (simp add: pop_slot_def)
  qed
  have f: "free_items (slab_item_allocate p) = free_items p0 + int (free_total (pop_slot sp slab a))"
    using pi ft by (simp add: pool_inv_def slab_item_allocate_def)
  have s: "slabs (slab_item_allocate p) = slabs p0 + int (card (dom (mem (pop_slot sp slab a))))"
    using pi d by (simp add: pool_inv_def slab_item_allocate_def)
  show ?thesis
    unfolding pool_inv_def fst_conv snd_conv by (intro conjI f s stack)
qed

lemma allocslot_pool_inv:
  assumes inv: "state_inv (p, a)" and pi: "pool_inv p0 (p, a)"
    and hs: "heapSize \<noteq> 0" "unat heapSize < 2 ^ 32"
    and r: "allocslot heapSize (p, a) = Inr (s, p', a')"
  shows "pool_inv p0 (p', a')"
  using inv hs
proof (cases rule: allocslot_cases)
  case (listed sp rest slab)
  with r have res: "p' = slab_item_allocate p" "a' = pop_slot sp slab a" by simp_all
  show ?thesis unfolding res by (rule pool_inv_pop_slot[OF inv pi listed(1,2)])
next
  case (added p1 a1)
  let ?sp = "HeapSlab (next_block p)"
  let ?new = "\<lparr>slabSize = ucast heapSize, freeSlots = ucast heapSize,
                freeHead = rev [0..<unat heapSize]\<rparr> :: slab_t"
  from added(8) r have res: "p' = slab_item_allocate p1" "a' = pop_slot ?sp ?new a1" by simp_all
  have fin: "finite (dom (mem a))" using inv by (simp add: state_inv_def alloc_inv_def)
  note tot = totals_new_slab[OF fin added(4,3)]
  have ft: "int (free_total a1) = int (free_total a) + uint heapSize" using tot(2) by simp
  have "dom (mem a1) = insert ?sp (dom (mem a))" using added(3) by simp
  moreover have "?sp \<notin> dom (mem a)" using added(4) by (simp add: domIff)
  ultimately have cd: "card (dom (mem a1)) = card (dom (mem a)) + 1" using fin by simp
  have stack: "mem a1 (StackSlab (selfPointer a1)) = mem a (StackSlab (selfPointer a))"
    using added(3,6) by simp
  have pi1: "pool_inv p0 (p1, a1)"
    using pi ft cd stack added(9,10,11) by (simp add: pool_inv_def)
  have m1: "mem a1 ?sp = Some ?new" using added(3) by simp
  show ?thesis unfolding res by (rule pool_inv_pop_slot[OF added(2) pi1 added(5) m1])
qed

lemma freeslot_pool_inv:
  assumes inv: "state_inv (p, a)" and pi: "pool_inv p0 (p, a)" and lv: "live a s"
    and r0: "freeslot s True (p, a) = Inr (p', a')"
  shows "pool_inv p0 (p', a')"
proof -
  obtain sp i where s: "s = (sp, i)" by (cases s)
  from lv s obtain slab where m: "mem a sp = Some slab"
    and i: "i < unat (slabSize slab)" "i \<notin> set (freeHead slab)"
    by (auto simp: live_def split: option.splits)
  have ai: "alloc_inv a" using inv by (simp add: state_inv_def)
  have fin: "finite (dom (mem a))" using ai by (simp add: alloc_inv_def)
  have ok: "slab_ok slab" using ai m by (auto simp: alloc_inv_def)
  let ?slab1 = "slab\<lparr>freeHead := i # freeHead slab, freeSlots := freeSlots slab + 1\<rparr>"
  let ?a2 = "push_slot sp i slab a"
  note push = slab_ok_push[OF ok i]
  have ai2: "alloc_inv ?a2" by (rule alloc_inv_push_slot[OF ai m i])
  have fin2: "finite (dom (mem ?a2))" using ai2 by (simp add: alloc_inv_def)
  have m2: "mem ?a2 sp = Some ?slab1" by (simp add: push_slot_def)
  have ft2: "free_total ?a2 = free_total a + 1" by (rule free_total_push_slot[OF fin m])
  have "dom (mem ?a2) = insert sp (dom (mem a))" by (simp add: push_slot_def)
  moreover have in_dom: "sp \<in> dom (mem a)" using m by (simp add: domIff)
  ultimately have d2: "dom (mem ?a2) = dom (mem a)" by (simp add: insert_absorb)
  from pi obtain stk where stk: "mem a (StackSlab (selfPointer a)) = Some stk"
      "slabSize stk = ucast (allocSlotCount a)"
    unfolding pool_inv_def by auto
  have stack2: "\<exists>slab'. mem ?a2 (StackSlab (selfPointer ?a2)) = Some slab'
                \<and> slabSize slab' = ucast (allocSlotCount ?a2)"
  proof (cases "sp = StackSlab (selfPointer a)")
    case True
    with m stk have "slab = stk" by simp
    with True stk(2) show ?thesis by (simp add: push_slot_def)
  next
    case False
    with stk show ?thesis by (simp add: push_slot_def)
  qed
  have f2: "free_items (slab_item_free p) = free_items p0 + int (free_total ?a2)"
    using pi ft2 by (simp add: pool_inv_def slab_item_free_def)
  have s2: "slabs (slab_item_free p) = slabs p0 + int (card (dom (mem ?a2)))"
    using pi d2 by (simp add: pool_inv_def slab_item_free_def)
  from freeslot_result[OF m r0[unfolded s]]
  show ?thesis
  proof (elim disjE conjE)
    assume res: "p' = slab_item_free p" "a' = ?a2"
    show ?thesis
      unfolding res pool_inv_def fst_conv snd_conv by (intro conjI f2 s2 stack2)
  next
    assume full: "freeSlots slab + 1 = slabSize slab" and ns: "sp \<noteq> StackSlab (selfPointer a)"
      and res: "p' = slab_delete (ucast (slabSize slab)) (slab_item_free p)"
        "a' = drop_slab sp slab ?a2"
    have len1: "length (freeHead ?slab1) = unat (slabSize slab)"
      using push(1) full by (simp add: slab_ok_def)
    note td = totals_drop_slab[OF fin2 m2, of slab]
    have ft': "int (free_total (drop_slab sp slab ?a2)) = int (free_total a) + 1 - int (unat (slabSize slab))"
      using td(2) ft2 len1 by linarith
    have us: "uint (ucast (slabSize slab) :: size_t) = int (unat (slabSize slab))"
      unfolding uint_nat unat_ucast_up32 by (rule refl)
    have f': "free_items p' = free_items p0 + int (free_total a')"
      unfolding res using pi ft' us by (simp add: pool_inv_def slab_delete_def slab_item_free_def)
    have "dom (mem (drop_slab sp slab ?a2)) = dom (mem a) - {sp}"
      using d2 by (simp add: drop_slab_def)
    then have "card (dom (mem (drop_slab sp slab ?a2))) = card (dom (mem a)) - 1"
      using in_dom fin by simp
    moreover have "card (dom (mem a)) \<ge> 1"
      using in_dom fin by (metis One_nat_def Suc_leI card_gt_0_iff empty_iff)
    ultimately have cd: "int (card (dom (mem (drop_slab sp slab ?a2)))) = int (card (dom (mem a))) - 1"
      by linarith
    have s': "slabs p' = slabs p0 + int (card (dom (mem a')))"
      unfolding res using pi cd by (simp add: pool_inv_def slab_delete_def slab_item_free_def)
    have stack': "\<exists>slab'. mem a' (StackSlab (selfPointer a')) = Some slab'
                \<and> slabSize slab' = ucast (allocSlotCount a')"
      unfolding res using stk ns by (simp add: drop_slab_def push_slot_def)
    show ?thesis
      unfolding pool_inv_def fst_conv snd_conv by (intro conjI f' s' stack')
  qed
qed

lemma trace_pool_inv:
  assumes "trace stackSize heapSize self p0 ops st" "config_ok stackSize heapSize"
  shows "pool_inv p0 st"
  using assms
proof (induction rule: trace.induct)
  case (trace_ctor st)
  then have sz: "unat stackSize < 2 ^ 32" by (simp add: config_ok_def)
  let ?new = "\<lparr>slabSize = ucast stackSize, freeSlots = ucast stackSize,
                freeHead = rev [0..<unat stackSize]\<rparr> :: slab_t"
  from ctor_inv[OF sz, of self p0]
  obtain p' a' where c0: "slab_allocator_ctor self stackSize p0 = Inr (p', a')"
    and c1: "mem a' = [StackSlab self \<mapsto> ?new]" "allocSlotCount a' = stackSize"
     "selfPointer a' = self"
     "free_items p' = free_items p0 + uint stackSize" "slabs p' = slabs p0 + 1"
    by (elim exE conjE) (rule that; assumption)
  have "st = (p', a')" using c0 trace_ctor(1) by simp
  note c = this c1
  have "free_total a' = unat stackSize"
    using c(2) by (simp add: free_total_def map_total_def)
  then show ?case using c by (simp add: pool_inv_def)
next
  case (trace_op ops st x st')
  then have hs: "heapSize \<noteq> 0" "unat heapSize < 2 ^ 32" by (simp_all add: config_ok_def)
  from trace_op(4)[OF trace_op(5)] have pi: "pool_inv p0 st" .
  from trace_inv[OF trace_op(1,5)] have inv: "state_inv st" by simp
  obtain p a where st: "st = (p, a)" by (cases st)
  obtain p' a' where st': "st' = (p', a')" by (cases st')
  show ?case
  proof (cases x)
    case Allocate
    with trace_op(3) st st' obtain s where "allocslot heapSize (p, a) = Inr (s, p', a')"
      by (auto simp: apply_op_def allocate_def split: sum.splits)
    from allocslot_pool_inv[OF inv[unfolded st] pi[unfolded st] hs this]
    show ?thesis by (simp add: st')
  next
    case (Deallocate s)
    with trace_op(2,3) st st' have "live a s" "freeslot s True (p, a) = Inr (p', a')"
      by (simp_all add: apply_op_def deallocate_def permitted_def)
    from freeslot_pool_inv[OF inv[unfolded st] pi[unfolded st] this]
    show ?thesis by (simp add: st')
  next
    case (Reserve n)
    show ?thesis
    proof (cases "freeSlotCount a < n")
      case True
      with Reserve trace_op(2,3) st st'
      have sz: "unat (n - freeSlotCount a) < 2 ^ 32"
        and r: "addSlab (n - freeSlotCount a) (p, a) = Inr (p', a')"
        by (simp_all add: permitted_def apply_op_def reserve_def reserve_internal_def)
      from pool_inv_new_slab[OF inv[unfolded st] pi[unfolded st] sz r]
      show ?thesis by (simp add: st')
    next
      case False
      with Reserve trace_op(3) st have "st' = st"
        by (simp add: apply_op_def reserve_def reserve_internal_def)
      with pi show ?thesis by simp
    qed
  qed
qed

lemma deallocate_all_pool_inv:
  assumes "state_inv (p, a)" "pool_inv p0 (p, a)" "distinct ps" "\<forall>q \<in> set ps. live a q"
    and "deallocate_all ps (p, a) = Inr (p', a')"
  shows "pool_inv p0 (p', a') \<and> allocSlotCount a' = allocSlotCount a"
  using assms
proof (induction ps arbitrary: p a)
  case Nil
  then show ?case by simp
next
  case (Cons s ps)
  have lv: "live a s" using Cons.prems(4) by simp
  from Cons.prems(5) obtain p1 a1 where r: "freeslot s True (p, a) = Inr (p1, a1)"
    and rest: "deallocate_all ps (p1, a1) = Inr (p', a')"
    by (auto simp: deallocate_def split: sum.splits)
  note st = freeslot_step[OF Cons.prems(1) lv r]
  have pi1: "pool_inv p0 (p1, a1)" by (rule freeslot_pool_inv[OF Cons.prems(1,2) lv r])
  have d: "distinct ps" and notin: "s \<notin> set ps" using Cons.prems(3) by simp_all
  have lv1: "\<forall>q \<in> set ps. live a1 q"
  proof
    fix q assume q: "q \<in> set ps"
    then have "live a q" using Cons.prems(4) by simp
    moreover have "q \<noteq> s" using q notin by blast
    ultimately show "live a1 q" using st(3)[of q] by blast
  qed
  from Cons.IH[OF st(1) pi1 d lv1 rest] freeslot_inv(3)[OF Cons.prems(1) lv r]
  show ?case by simp
qed

text \<open>
  Claim C3. A container that never calls \<^verbatim>\<open>reserve\<close> drives its allocator by
  allocations (insert) and deallocations of live nodes (erase); \<^verbatim>\<open>clear()\<close> deallocates
  every live node, each once, in the order of the container. From every state reached
  that way (with \<^verbatim>\<open>heapSize\<close> not zero, both sizes below \<open>2^32\<close>, and fewer than \<open>2^64\<close>
  slots in memory), and for every order \<open>ps\<close> of the live nodes, the deallocations all
  succeed, the pool's \<open>inuse_items\<close> is back at its value before the container was
  constructed (the container's share is 0), no slot is live, and the only slab the
  allocator still holds is the inline slab, with all its \<^verbatim>\<open>stackSize\<close> slots free: every
  heap slab has been released to the pool, whose \<open>slabs\<close> counts one slab for the
  container and whose \<open>free_items\<close> counts \<^verbatim>\<open>stackSize\<close> items for it, as they did when
  the container was constructed.
\<close>

theorem clear_releases_heap_slabs:
  assumes t: "trace stackSize heapSize self p0 ops st" and cfg: "config_ok stackSize heapSize"
    and nr: "no_reserve ops"
    and ps: "distinct ps" "set ps = {s. live (snd st) s}"
    and bound: "slot_total (snd st) < 2 ^ 64"
  shows "\<exists>st'. deallocate_all ps st = Inr st'
           \<and> inuse_items (fst st') = inuse_items p0
           \<and> inuse_items (fst st') = inuse_items (fst st) - int (length ps)
           \<and> dom (mem (snd st')) = {StackSlab self}
           \<and> (\<forall>s. \<not> live (snd st') s)
           \<and> slabs (fst st') = slabs p0 + 1
           \<and> slabs (fst st') = slabs (fst st) - (int (card (dom (mem (snd st)))) - 1)
           \<and> free_items (fst st') = free_items p0 + uint stackSize
           \<and> freeSlotCount (snd st') = stackSize
           \<and> freeSlabHeads (snd st') = (if stackSize = 0 then [] else [StackSlab self])"
proof -
  obtain p a where st: "st = (p, a)" by (cases st)
  have ci: "clear_inv p0 (p, a)" using trace_clear_inv[OF t cfg nr] st by simp
  have inv: "state_inv (p, a)" using ci by (simp add: clear_inv_def)
  have pi: "pool_inv p0 (p, a)" using trace_pool_inv[OF t cfg] st by simp
  have self: "selfPointer a = self" and asc: "allocSlotCount a = stackSize"
    using trace_inv[OF t cfg] st by simp_all
  have sz: "unat stackSize < 2 ^ 32" using cfg by (simp add: config_ok_def)
  from deallocate_all_clear[OF ci ps(1) ps(2)[unfolded st snd_conv] bound[unfolded st snd_conv]]
  obtain p' a' where r: "deallocate_all ps (p, a) = Inr (p', a')" "clear_inv p0 (p', a')"
      "\<forall>s. \<not> live a' s" "selfPointer a' = selfPointer a"
      "inuse_items p' = inuse_items p - int (length ps)"
    by blast
  have lvs: "\<forall>q \<in> set ps. live a q" using ps(2) st by simp
  from deallocate_all_pool_inv[OF inv pi ps(1) lvs r(1)]
  have pi': "pool_inv p0 (p', a')" and asc': "allocSlotCount a' = stackSize"
    using asc by simp_all
  have ai': "alloc_inv a'" and ni': "no_idle_heap_slab a'"
    and rel: "inuse_items p' + int (free_total a') = inuse_items p0 + int (slot_total a')"
    using r(2) by (simp_all add: clear_inv_def state_inv_def)
  note fin = no_live_only_stack[OF ai' ni' r(3)]
  have inuse: "inuse_items p' = inuse_items p0" using rel fin(2) by simp
  have dom': "dom (mem a') = {StackSlab self}" using fin(1) r(4) self by simp
  from pi' obtain stk where stk: "mem a' (StackSlab self) = Some stk"
      "slabSize stk = ucast stackSize"
    unfolding pool_inv_def using r(4) self asc' by auto
  have "mem a' = [StackSlab self \<mapsto> stk]"
  proof
    fix x show "mem a' x = [StackSlab self \<mapsto> stk] x"
      using dom' stk(1) by (cases "x = StackSlab self") (auto simp: domIff)
  qed
  then have "slot_total a' = unat (slabSize stk)"
    by (simp add: slot_total_def map_total_def)
  then have tot: "slot_total a' = unat stackSize"
    using stk(2) unat_ucast_small[OF sz] by simp
  have slabs': "slabs p' = slabs p0 + 1"
    using pi' dom' by (simp add: pool_inv_def)
  have "slabs p = slabs p0 + int (card (dom (mem a)))" using pi by (simp add: pool_inv_def)
  then have slabs2: "slabs p' = slabs p - (int (card (dom (mem a))) - 1)" using slabs' by simp
  have free': "free_items p' = free_items p0 + uint stackSize"
    using pi' fin(2) tot by (simp add: pool_inv_def)
  have "freeSlotCount a' = of_nat (free_total a')" using ai' by (simp add: alloc_inv_def)
  then have fsc: "freeSlotCount a' = stackSize" using fin(2) tot by simp
  have ok: "slab_ok stk" using ai' stk(1) unfolding alloc_inv_def by blast
  have "unat (freeSlots stk) = unat (slabSize stk)"
    using ok fin(2) \<open>slot_total a' = unat (slabSize stk)\<close> \<open>mem a' = [StackSlab self \<mapsto> stk]\<close>
    by (simp add: slab_ok_def free_total_def map_total_def)
  then have fs: "freeSlots stk = ucast stackSize" using stk(2) by (simp add: word_unat_eq_iff)
  have z: "(ucast stackSize :: uint32_t) = 0 \<longleftrightarrow> stackSize = 0"
    using unat_ucast_small[OF sz] by (metis unat_eq_zero)
  have listed: "\<And>sp. sp \<in> set (freeSlabHeads a') \<longleftrightarrow> sp = StackSlab self \<and> stackSize \<noteq> 0"
  proof -
    fix sp
    have "sp \<in> set (freeSlabHeads a') \<longleftrightarrow> (\<exists>slab. mem a' sp = Some slab \<and> freeSlots slab \<noteq> 0)"
      using ai' unfolding alloc_inv_def by blast
    also have "\<dots> \<longleftrightarrow> sp = StackSlab self \<and> stackSize \<noteq> 0"
      using \<open>mem a' = [StackSlab self \<mapsto> stk]\<close> fs z by auto
    finally show "sp \<in> set (freeSlabHeads a') \<longleftrightarrow> sp = StackSlab self \<and> stackSize \<noteq> 0" .
  qed
  have dist: "distinct (freeSlabHeads a')" using ai' by (simp add: alloc_inv_def)
  have heads: "freeSlabHeads a' = (if stackSize = 0 then [] else [StackSlab self])"
  proof (cases "stackSize = 0")
    case True
    then have "\<forall>sp. sp \<notin> set (freeSlabHeads a')" using listed by simp
    then have "freeSlabHeads a' = []" by (cases "freeSlabHeads a'") auto
    with True show ?thesis by simp
  next
    case False
    then have mem_iff: "\<And>sp. sp \<in> set (freeSlabHeads a') \<longleftrightarrow> sp = StackSlab self"
      using listed by simp
    then have "freeSlabHeads a' \<noteq> []" by fastforce
    then obtain x xs where l: "freeSlabHeads a' = x # xs" by (cases "freeSlabHeads a'") auto
    have x: "x = StackSlab self" using mem_iff[of x] l by simp
    have "xs = []"
    proof (cases xs)
      case (Cons y ys)
      then have "y = StackSlab self" using mem_iff[of y] l by simp
      with x l Cons dist show ?thesis by simp
    qed simp
    with l x False show ?thesis by simp
  qed
  show ?thesis
    unfolding st fst_conv snd_conv
    apply (rule exI[of _ "(p', a')"])
    apply (unfold fst_conv snd_conv)
    apply (intro conjI)
    apply (fact r(1) inuse r(5) dom' r(3) slabs' slabs2 free' fsc heads)+
    done
qed

theorem clear_releases_heap_slabs_witness:
  "trace 1 2 0 pool0 [Allocate, Allocate] two1 \<and> config_ok 1 2
   \<and> no_reserve [Allocate, Allocate]
   \<and> distinct [(StackSlab 0, 0 :: nat), (HeapSlab 0, 1)]
   \<and> set [(StackSlab 0, 0), (HeapSlab 0, 1)] = {s. live (snd two1) s}
   \<and> slot_total (snd two1) < 2 ^ 64
   \<and> slabs (fst two1) = 2 \<and> free_items (fst two1) = 1
   \<and> (\<exists>st'. deallocate_all [(StackSlab 0, 0), (HeapSlab 0, 1)] two1 = Inr st'
           \<and> inuse_items (fst st') = 0
           \<and> dom (mem (snd st')) = {StackSlab 0}
           \<and> (\<forall>s. \<not> live (snd st') s)
           \<and> slabs (fst st') = 1
           \<and> free_items (fst st') = 1
           \<and> freeSlotCount (snd st') = 1
           \<and> freeSlabHeads (snd st') = [StackSlab 0])"
proof -
  have cfg: "config_ok 1 2" by (simp add: config_ok_def)
  have nr: "no_reserve [Allocate, Allocate]" by (simp add: no_reserve_def)
  have d: "distinct [(StackSlab 0, 0 :: nat), (HeapSlab 0, 1)]" by simp
  have l: "set [(StackSlab 0, 0), (HeapSlab 0, 1)] = {s. live (snd two1) s}"
    by (rule two1_live[symmetric])
  have b: "slot_total (snd two1) < 2 ^ 64" by (simp add: two1_slot_total)
  have v: "slabs (fst two1) = 2" "free_items (fst two1) = 1" by (simp_all add: two1_def)
  from clear_releases_heap_slabs[OF trace_two1 cfg nr d l b]
  obtain st' where r: "deallocate_all [(StackSlab 0, 0), (HeapSlab 0, 1)] two1 = Inr st'"
      "inuse_items (fst st') = inuse_items pool0"
      "dom (mem (snd st')) = {StackSlab 0}"
      "\<forall>s. \<not> live (snd st') s"
      "slabs (fst st') = slabs pool0 + 1"
      "free_items (fst st') = free_items pool0 + uint (1 :: size_t)"
      "freeSlotCount (snd st') = 1"
      "freeSlabHeads (snd st') = (if (1 :: size_t) = 0 then [] else [StackSlab 0])"
    by (elim exE conjE) (rule that; assumption)
  have ex: "\<exists>st'. deallocate_all [(StackSlab 0, 0), (HeapSlab 0, 1)] two1 = Inr st'
           \<and> inuse_items (fst st') = 0
           \<and> dom (mem (snd st')) = {StackSlab 0}
           \<and> (\<forall>s. \<not> live (snd st') s)
           \<and> slabs (fst st') = 1
           \<and> free_items (fst st') = 1
           \<and> freeSlotCount (snd st') = 1
           \<and> freeSlabHeads (snd st') = [StackSlab 0]"
    apply (intro exI[of _ st'])
    using r by (simp add: pool0_def)
  show ?thesis
    using trace_two1 cfg nr d l b v ex by blast
qed

section \<open>Allocate, then deallocate: both cases\<close>

lemma roundtrip_idle:
  assumes inv: "state_inv (p, a)" and l: "freeSlabHeads a = sp # rest"
    and idle: "head_slab_idle a"
    and hs: "heapSize \<noteq> 0" "unat heapSize < 2 ^ 32"
    and bound: "slot_total a < 2 ^ 64"
  shows "\<exists>slab i p2. mem a sp = Some slab \<and> freeSlots slab = slabSize slab
           \<and> allocslot heapSize (p, a)
                = Inr ((sp, i), slab_item_allocate p, pop_slot sp slab a)
           \<and> freeslot (sp, i) True (slab_item_allocate p, pop_slot sp slab a)
                = Inr (p2, drop_slab sp slab a)
           \<and> inuse_items p2 = inuse_items p
           \<and> free_items p2 = free_items p - uint (slabSize slab)
           \<and> slabs p2 = slabs p - 1"
proof -
  have ai: "alloc_inv a" using inv by (simp add: state_inv_def)
  have fin: "finite (dom (mem a))" using ai by (simp add: alloc_inv_def)
  from idle l obtain slab where m: "mem a sp = Some slab"
    and ns: "sp \<noteq> StackSlab (selfPointer a)" and full: "freeSlots slab = slabSize slab"
    by (auto simp: head_slab_idle_def split: option.splits)
  let ?i = "hd (freeHead slab)"
  let ?slab1 = "slab\<lparr>freeHead := tl (freeHead slab), freeSlots := freeSlots slab - 1\<rparr>"
  let ?p1 = "slab_item_allocate p"
  let ?a1 = "pop_slot sp slab a"
  have r: "allocslot heapSize (p, a) = Inr ((sp, ?i), ?p1, ?a1)"
    using allocslot_nonempty[OF ai l m, of p] l by (simp add: allocslot_listed)
  note st = allocslot_step[OF inv hs r]
  have lv: "live ?a1 (sp, ?i)" using st(2)[of "(sp, ?i)"] by simp
  have bound1: "slot_total ?a1 < 2 ^ 64"
    using slot_total_pop_slot[OF fin m] bound by simp
  from freeslot_succeeds[OF st(1) lv bound1]
  obtain p2 a2 where r2: "freeslot (sp, ?i) True (?p1, ?a1) = Inr (p2, a2)" by blast
  have m1: "mem ?a1 sp = Some ?slab1" by (simp add: pop_slot_def)
  have cond: "freeSlots ?slab1 + 1 = slabSize ?slab1" "sp \<noteq> StackSlab (selfPointer ?a1)"
    using full ns by (simp_all add: pop_slot_def)
  from freeslot_result[OF m1 r2] cond
  have res: "p2 = slab_delete (ucast (slabSize ?slab1)) (slab_item_free ?p1)"
    "a2 = drop_slab sp ?slab1 (push_slot sp ?i ?slab1 ?a1)"
    by blast+
  have a2: "a2 = drop_slab sp slab a"
    unfolding res(2) push_pop[OF ai l m] by (simp add: drop_slab_def)
  have us: "uint (ucast (slabSize slab) :: size_t) = uint (slabSize slab)"
    unfolding uint_nat unat_ucast_up32 by (rule refl)
  have pool: "inuse_items p2 = inuse_items p" "free_items p2 = free_items p - uint (slabSize slab)"
    "slabs p2 = slabs p - 1"
    unfolding res(1) using us
    by (simp_all add: slab_delete_def slab_item_free_def slab_item_allocate_def)
  show ?thesis
    apply (intro exI[of _ slab] exI[of _ ?i] exI[of _ p2] conjI)
    apply (fact m full r pool r2[unfolded a2])+
    done
qed

text \<open>
  Claim C8, as the code has it. Take a state reached from the constructor by allocations,
  deallocations of live slots and \<^verbatim>\<open>reserve\<close> calls, with \<^verbatim>\<open>heapSize\<close> not zero, both sizes
  below \<open>2^32\<close> and each \<^verbatim>\<open>reserve\<close> adding fewer than \<open>2^32\<close> slots. There
  \<^verbatim>\<open>allocate(1)\<close> succeeds. If the
  slab at the head of the free-slab list is not a heap slab with all its slots free,
  \<^verbatim>\<open>deallocate\<close> of the pointer it returned succeeds and the allocator is then exactly as
  before (its free-slab list, its slabs, \<open>freeSlotCount\<close> and \<open>allocSlotCount\<close>), and so
  are the pool counters \<open>inuse_items\<close>, \<open>free_items\<close> and \<open>slabs\<close>; this covers the case
  of an empty free-slab list, where the allocation adds a heap slab and the deallocation
  gives it back. If the slab at the head is a heap slab with all its slots free (such a
  slab exists only after \<^verbatim>\<open>reserve\<close>: never in a run without it) and the allocator holds
  fewer than \<open>2^64\<close> slots, the allocation draws from that slab and \<^verbatim>\<open>deallocate\<close> of the pointer succeeds and
  releases the slab: it leaves the allocator and the free-slab list, \<open>freeSlotCount\<close> and
  \<open>free_items\<close> go down by its \<open>slabSize\<close>, \<open>slabs\<close> by one, and \<open>allocSlotCount\<close> and
  \<open>inuse_items\<close> are as before.
\<close>

theorem allocate_deallocate_restores:
  assumes t: "trace stackSize heapSize self p0 ops st" and cfg: "config_ok stackSize heapSize"
  shows "(\<exists>s st1. allocate heapSize 1 st = Inr (s, st1)
           \<and> (\<not> head_slab_idle (snd st) \<longrightarrow>
                (\<exists>st2. deallocate s st1 = Inr st2
                   \<and> snd st2 = snd st
                   \<and> freeSlotCount (snd st2) = freeSlotCount (snd st)
                   \<and> allocSlotCount (snd st2) = allocSlotCount (snd st)
                   \<and> inuse_items (fst st2) = inuse_items (fst st)
                   \<and> free_items (fst st2) = free_items (fst st)
                   \<and> slabs (fst st2) = slabs (fst st)))
           \<and> (head_slab_idle (snd st) \<and> slot_total (snd st) < 2 ^ 64 \<longrightarrow>
                (\<exists>st2 slab. deallocate s st1 = Inr st2
                   \<and> fst s = hd (freeSlabHeads (snd st))
                   \<and> mem (snd st) (fst s) = Some slab
                   \<and> freeSlots slab = slabSize slab
                   \<and> mem (snd st2) = (mem (snd st))(fst s := None)
                   \<and> freeSlabHeads (snd st2) = tl (freeSlabHeads (snd st))
                   \<and> freeSlotCount (snd st2) = freeSlotCount (snd st) - ucast (slabSize slab)
                   \<and> allocSlotCount (snd st2) = allocSlotCount (snd st)
                   \<and> selfPointer (snd st2) = selfPointer (snd st)
                   \<and> inuse_items (fst st2) = inuse_items (fst st)
                   \<and> free_items (fst st2) = free_items (fst st) - uint (slabSize slab)
                   \<and> slabs (fst st2) = slabs (fst st) - 1)))
         \<and> (no_reserve ops \<longrightarrow> \<not> head_slab_idle (snd st))"
proof -
  obtain p a where st: "st = (p, a)" by (cases st)
  from trace_inv[OF t cfg] st have inv: "state_inv (p, a)" by simp
  have hs: "heapSize \<noteq> 0" "unat heapSize < 2 ^ 32" using cfg by (simp_all add: config_ok_def)
  have never: "no_reserve ops \<longrightarrow> \<not> head_slab_idle (snd st)"
  proof
    assume "no_reserve ops"
    from trace_clear_inv[OF t cfg this] have ni: "no_idle_heap_slab a"
      by (simp add: clear_inv_def st)
    show "\<not> head_slab_idle (snd st)"
    proof
      assume "head_slab_idle (snd st)"
      then obtain sp rest slab where l: "freeSlabHeads a = sp # rest"
        and ns: "sp \<noteq> StackSlab (selfPointer a)"
        and m: "mem a sp = Some slab" "freeSlots slab = slabSize slab"
        by (auto simp: head_slab_idle_def st split: list.splits option.splits)
      have ai: "alloc_inv a" using inv by (simp add: state_inv_def)
      show False
      proof (cases sp)
        case (StackSlab k)
        with m(1) ai have "k = selfPointer a" unfolding alloc_inv_def by blast
        with StackSlab ns show False by simp
      next
        case (HeapSlab h)
        with m ni show False unfolding no_idle_heap_slab_def by blast
      qed
    qed
  qed
  have main: "\<exists>s st1. allocate heapSize 1 st = Inr (s, st1)
           \<and> (\<not> head_slab_idle (snd st) \<longrightarrow>
                (\<exists>st2. deallocate s st1 = Inr st2
                   \<and> snd st2 = snd st
                   \<and> freeSlotCount (snd st2) = freeSlotCount (snd st)
                   \<and> allocSlotCount (snd st2) = allocSlotCount (snd st)
                   \<and> inuse_items (fst st2) = inuse_items (fst st)
                   \<and> free_items (fst st2) = free_items (fst st)
                   \<and> slabs (fst st2) = slabs (fst st)))
           \<and> (head_slab_idle (snd st) \<and> slot_total (snd st) < 2 ^ 64 \<longrightarrow>
                (\<exists>st2 slab. deallocate s st1 = Inr st2
                   \<and> fst s = hd (freeSlabHeads (snd st))
                   \<and> mem (snd st) (fst s) = Some slab
                   \<and> freeSlots slab = slabSize slab
                   \<and> mem (snd st2) = (mem (snd st))(fst s := None)
                   \<and> freeSlabHeads (snd st2) = tl (freeSlabHeads (snd st))
                   \<and> freeSlotCount (snd st2) = freeSlotCount (snd st) - ucast (slabSize slab)
                   \<and> allocSlotCount (snd st2) = allocSlotCount (snd st)
                   \<and> selfPointer (snd st2) = selfPointer (snd st)
                   \<and> inuse_items (fst st2) = inuse_items (fst st)
                   \<and> free_items (fst st2) = free_items (fst st) - uint (slabSize slab)
                   \<and> slabs (fst st2) = slabs (fst st) - 1))"
  proof (cases "freeSlabHeads a")
    case Nil
    then have ni: "\<not> head_slab_idle a" by (simp add: head_slab_idle_def)
    from roundtrip_empty[OF inv Nil hs] ni show ?thesis
      unfolding st allocate_def deallocate_def by fastforce
  next
    case (Cons sp rest)
    show ?thesis
    proof (cases "head_slab_idle a")
      case False
      from roundtrip_listed[OF inv Cons False, of heapSize] False show ?thesis
        unfolding st allocate_def deallocate_def by fastforce
    next
      case True
      show ?thesis
      proof (cases "slot_total a < 2 ^ 64")
        case b: True
        from roundtrip_idle[OF inv Cons True hs b]
        obtain slab i p2 where ri: "mem a sp = Some slab" "freeSlots slab = slabSize slab"
            "allocslot heapSize (p, a) = Inr ((sp, i), slab_item_allocate p, pop_slot sp slab a)"
            "freeslot (sp, i) True (slab_item_allocate p, pop_slot sp slab a)
               = Inr (p2, drop_slab sp slab a)"
            "inuse_items p2 = inuse_items p"
            "free_items p2 = free_items p - uint (slabSize slab)"
            "slabs p2 = slabs p - 1"
          by (elim exE conjE) (rule that; assumption)
        have al: "allocate heapSize 1 (p, a)
            = Inr ((sp, i), slab_item_allocate p, pop_slot sp slab a)"
          by (simp add: allocate_def ri(3))
        have de: "deallocate (sp, i) (slab_item_allocate p, pop_slot sp slab a)
            = Inr (p2, drop_slab sp slab a)"
          by (simp add: deallocate_def ri(4))
        have second: "\<exists>st2 slab'. deallocate (sp, i) (slab_item_allocate p, pop_slot sp slab a) = Inr st2
                   \<and> fst (sp, i) = hd (freeSlabHeads a)
                   \<and> mem a (fst (sp, i)) = Some slab'
                   \<and> freeSlots slab' = slabSize slab'
                   \<and> mem (snd st2) = (mem a)(fst (sp, i) := None)
                   \<and> freeSlabHeads (snd st2) = tl (freeSlabHeads a)
                   \<and> freeSlotCount (snd st2) = freeSlotCount a - ucast (slabSize slab')
                   \<and> allocSlotCount (snd st2) = allocSlotCount a
                   \<and> selfPointer (snd st2) = selfPointer a
                   \<and> inuse_items (fst st2) = inuse_items p
                   \<and> free_items (fst st2) = free_items p - uint (slabSize slab')
                   \<and> slabs (fst st2) = slabs p - 1"
          apply (intro exI[of _ "(p2, drop_slab sp slab a)"] exI[of _ slab])
          using de ri(1,2,5,6,7) Cons by (simp add: drop_slab_def)
        show ?thesis
          unfolding st fst_conv snd_conv
          apply (intro exI[of _ "(sp, i)"]
              exI[of _ "(slab_item_allocate p, pop_slot sp slab a)"] conjI al)
          using True second by simp_all
      next
        case b: False
        from allocslot_inv[OF inv hs] obtain s p1 a1 where
          "allocslot heapSize (p, a) = Inr (s, p1, a1)" by blast
        then have "allocate heapSize 1 (p, a) = Inr (s, p1, a1)" by (simp add: allocate_def)
        then show ?thesis
          unfolding st fst_conv snd_conv using True b by auto
      qed
    qed
  qed
  show ?thesis using main never by (rule conjI)
qed

lemma reserved9_slot_total: "slot_total (snd reserved9) = 9"
proof -
  have m: "mem (snd reserved9)
      = [StackSlab 0 \<mapsto> \<lparr>slabSize = 4, freeSlots = 4, freeHead = [3, 2, 1, 0]\<rparr>,
         HeapSlab 0 \<mapsto> \<lparr>slabSize = 5, freeSlots = 5, freeHead = [4, 3, 2, 1, 0]\<rparr>]"
    by (simp add: reserved9_def)
  have "slot_total (snd reserved9) = 0 + 4 + 5"
    unfolding slot_total_def m
    by (subst map_total_upd_new, simp, simp)+ (simp add: map_total_def)
  then show ?thesis by simp
qed

theorem allocate_deallocate_restores_witness:
  "trace 4 12 0 pool0 [] fresh4 \<and> config_ok 4 12 \<and> no_reserve []
   \<and> \<not> head_slab_idle (snd fresh4)
   \<and> (\<exists>s st1 st2. allocate 12 1 fresh4 = Inr (s, st1) \<and> deallocate s st1 = Inr st2
           \<and> snd st2 = snd fresh4
           \<and> freeSlotCount (snd st2) = 4 \<and> allocSlotCount (snd st2) = 4
           \<and> inuse_items (fst st2) = 0 \<and> free_items (fst st2) = 4 \<and> slabs (fst st2) = 1)
   \<and> trace 4 12 0 pool0 [Reserve 9] reserved9 \<and> head_slab_idle (snd reserved9)
   \<and> slot_total (snd reserved9) < 2 ^ 64
   \<and> (\<exists>s st1 st2. allocate 12 1 reserved9 = Inr (s, st1) \<and> deallocate s st1 = Inr st2
           \<and> fst s = HeapSlab 0
           \<and> mem (snd st2) (HeapSlab 0) = None
           \<and> freeSlabHeads (snd st2) = [StackSlab 0]
           \<and> freeSlotCount (snd st2) = 4 \<and> allocSlotCount (snd st2) = 4
           \<and> inuse_items (fst st2) = 0 \<and> free_items (fst st2) = 4 \<and> slabs (fst st2) = 1)"
proof -
  note t4 = allocate_deallocate_restores[OF trace_fresh4 config_4_12]
  have nr: "no_reserve []" by (simp add: no_reserve_def)
  have idle: "\<not> head_slab_idle (snd fresh4)"
    using t4[THEN conjunct2] nr by blast
  have v: "freeSlotCount (snd fresh4) = 4" "allocSlotCount (snd fresh4) = 4"
    "inuse_items (fst fresh4) = 0" "free_items (fst fresh4) = 4" "slabs (fst fresh4) = 1"
    by (simp_all add: fresh4_def)
  have first: "\<exists>s st1 st2. allocate 12 1 fresh4 = Inr (s, st1) \<and> deallocate s st1 = Inr st2
           \<and> snd st2 = snd fresh4
           \<and> freeSlotCount (snd st2) = 4 \<and> allocSlotCount (snd st2) = 4
           \<and> inuse_items (fst st2) = 0 \<and> free_items (fst st2) = 4 \<and> slabs (fst st2) = 1"
    using t4[THEN conjunct1] idle
    unfolding v by blast
  have idle9: "head_slab_idle (snd reserved9)"
    by (simp add: head_slab_idle_def reserved9_def)
  have b9: "slot_total (snd reserved9) < 2 ^ 64" by (simp add: reserved9_slot_total)
  have v9: "freeSlabHeads (snd reserved9) = [HeapSlab 0, StackSlab 0]"
    "freeSlotCount (snd reserved9) = 9" "allocSlotCount (snd reserved9) = 4"
    "inuse_items (fst reserved9) = 0" "free_items (fst reserved9) = 9" "slabs (fst reserved9) = 2"
    by (simp_all add: reserved9_def)
  from allocate_deallocate_restores[OF trace_reserved9 config_4_12, THEN conjunct1] idle9 b9
  obtain s st1 st2 slab where r: "allocate 12 1 reserved9 = Inr (s, st1)"
      "deallocate s st1 = Inr st2"
      "fst s = hd (freeSlabHeads (snd reserved9))"
      "mem (snd reserved9) (fst s) = Some slab"
      "mem (snd st2) = (mem (snd reserved9))(fst s := None)"
      "freeSlabHeads (snd st2) = tl (freeSlabHeads (snd reserved9))"
      "freeSlotCount (snd st2) = freeSlotCount (snd reserved9) - ucast (slabSize slab)"
      "allocSlotCount (snd st2) = allocSlotCount (snd reserved9)"
      "inuse_items (fst st2) = inuse_items (fst reserved9)"
      "free_items (fst st2) = free_items (fst reserved9) - uint (slabSize slab)"
      "slabs (fst st2) = slabs (fst reserved9) - 1"
    by blast
  have s: "fst s = HeapSlab 0" using r(3) v9(1) by simp
  have slab: "slabSize slab = 5" using r(4) unfolding s by (auto simp: reserved9_def)
  have second: "\<exists>s st1 st2. allocate 12 1 reserved9 = Inr (s, st1) \<and> deallocate s st1 = Inr st2
           \<and> fst s = HeapSlab 0
           \<and> mem (snd st2) (HeapSlab 0) = None
           \<and> freeSlabHeads (snd st2) = [StackSlab 0]
           \<and> freeSlotCount (snd st2) = 4 \<and> allocSlotCount (snd st2) = 4
           \<and> inuse_items (fst st2) = 0 \<and> free_items (fst st2) = 4 \<and> slabs (fst st2) = 1"
  proof -
    have f: "mem (snd st2) (HeapSlab 0) = None" "freeSlabHeads (snd st2) = [StackSlab 0]"
      "freeSlotCount (snd st2) = 4" "allocSlotCount (snd st2) = 4"
      "inuse_items (fst st2) = 0" "free_items (fst st2) = 4" "slabs (fst st2) = 1"
      using r(5-11) unfolding v9 slab s by simp_all
    show ?thesis
      apply (rule exI[of _ s], rule exI[of _ st1], rule exI[of _ st2])
      apply (intro conjI)
      apply (fact r(1) r(2) s f)+
      done
  qed
  show ?thesis
    using trace_fresh4 config_4_12 nr idle first trace_reserved9 idle9 b9 second by blast
qed

text \<open>
  The claim as stated fails after \<^verbatim>\<open>reserve(9)\<close> on the fresh allocator with
  \<^verbatim>\<open>stackSize = 4\<close>: the allocation draws from the reserved heap slab, the deallocation
  finds that slab entirely free and gives it back, and \<open>freeSlotCount\<close> and
  \<open>free_items\<close> end at 4 instead of 9, \<open>slabs\<close> at 1 instead of 2.
\<close>

theorem allocate_deallocate_after_reserve_counterexample:
  "trace 4 12 0 pool0 [Reserve 9] reserved9
   \<and> allocate 12 1 reserved9 = Inr ((HeapSlab 0, 4), reserved9_taken)
   \<and> deallocate (HeapSlab 0, 4) reserved9_taken = Inr fresh4_again
   \<and> freeSlotCount (snd reserved9) = 9 \<and> freeSlotCount (snd fresh4_again) = 4
   \<and> free_items (fst reserved9) = 9 \<and> free_items (fst fresh4_again) = 4
   \<and> slabs (fst reserved9) = 2 \<and> slabs (fst fresh4_again) = 1"
  using trace_reserved9 reserved9_allocate reserved9_deallocate
  by (simp add: reserved9_def fresh4_again_def)

section \<open>Lists\<close>

lemma index_of_Some:
  "index_of q ns = Some k \<Longrightarrow> k < length ns \<and> fst (ns ! k) = q \<and> q \<notin> fst ` set (take k ns)"
proof (induction ns arbitrary: k)
  case Nil
  then show ?case by simp
next
  case (Cons n ns)
  show ?case
  proof (cases "fst n = q")
    case True
    with Cons.prems show ?thesis by simp
  next
    case False
    with Cons.prems obtain j where j: "index_of q ns = Some j" "k = Suc j" by auto
    from Cons.IH[OF j(1)] False j(2) show ?thesis by auto
  qed
qed

lemma index_of_None: "index_of q ns = None \<longleftrightarrow> q \<notin> fst ` set ns"
  by (induction ns) auto

lemma index_of_append:
  "index_of q (xs @ ys) =
     (case index_of q xs of
        Some i \<Rightarrow> Some i
      | None \<Rightarrow> map_option (\<lambda>j. length xs + j) (index_of q ys))"
proof (induction xs)
  case Nil
  show ?case by (cases "index_of q ys") simp_all
next
  case (Cons x xs)
  then show ?case
    by (cases "index_of q xs"; cases "index_of q ys") simp_all
qed

lemma index_of_nth:
  assumes "distinct (map fst ns)" "k < length ns"
  shows "index_of (fst (ns ! k)) ns = Some k"
  using assms
proof (induction ns arbitrary: k)
  case Nil
  then show ?case by simp
next
  case (Cons n ns)
  show ?case
  proof (cases k)
    case 0
    then show ?thesis by simp
  next
    case (Suc j)
    with Cons.prems have "ns ! j \<in> set ns" by simp
    then have "fst (ns ! j) \<in> fst ` set ns" by (rule imageI)
    moreover have "fst n \<notin> fst ` set ns" using Cons.prems(1) by simp
    ultimately have "fst n \<noteq> fst (ns ! j)" by metis
    with Cons Suc show ?thesis by simp
  qed
qed

lemma index_of_inserted:
  assumes "k \<le> length ns" "s \<notin> fst ` set ns"
  shows "index_of s (take k ns @ (s, x) # drop k ns) = Some k"
proof -
  have "s \<notin> fst ` set (take k ns)" using assms(2) by (auto dest: in_set_takeD)
  then have "index_of s (take k ns) = None" by (simp add: index_of_None)
  then show ?thesis using assms(1) by (simp add: index_of_append min_absorb2)
qed

lemma index_of_shifted:
  assumes "index_of q ns = Some k" "q \<noteq> s"
  shows "index_of q (take k ns @ (s, x) # drop k ns) = Some (Suc k)"
proof -
  from index_of_Some[OF assms(1)] have k: "k < length ns" "fst (ns ! k) = q"
    "q \<notin> fst ` set (take k ns)" by simp_all
  have none: "index_of q (take k ns) = None" using k(3) by (simp add: index_of_None)
  have "drop k ns = ns ! k # drop (Suc k) ns" using k(1) by (simp add: Cons_nth_drop_Suc)
  then have "index_of q ((s, x) # drop k ns) = Some 1" using k(2) assms(2) by simp
  then show ?thesis using none k(1) by (simp add: index_of_append min_absorb2)
qed

lemma position_le: "position ns pos = Some k \<Longrightarrow> k \<le> length ns"
  by (auto simp: position_def split: option.splits dest: index_of_Some)

lemma list_ok_pool_mono:
  assumes "list_ok p l" "next_block p \<le> next_block p'"
  shows "list_ok p' l"
  using assms fresh_for_mono[of p "alloc l" p' "alloc l"]
  by (simp add: list_ok_def state_inv_def)

lemma list_insert_ok:
  fixes w :: "'a world"
  assumes ok: "list_ok (pool w) (objs w c)" and hs: "heapSize \<noteq> 0" "unat heapSize < 2 ^ 32"
    and pos: "position (nodes (objs w c)) pos = Some k"
  shows "\<exists>s w'. list_insert heapSize c pos x w = Inr (Some s, w')
           \<and> nodes (objs w' c) = take k (nodes (objs w c)) @ (s, x) # drop k (nodes (objs w c))
           \<and> list_ok (pool w') (objs w' c)
           \<and> (\<forall>d. d \<noteq> c \<longrightarrow> objs w' d = objs w d)
           \<and> next_block (pool w) \<le> next_block (pool w')
           \<and> inuse_items (pool w') = inuse_items (pool w) + 1
           \<and> list_next (objs w' c) (Some s) = Inr pos
           \<and> position (nodes (objs w' c)) pos = Some (Suc k)"
proof -
  let ?ns = "nodes (objs w c)"
  let ?a = "alloc (objs w c)"
  have inv: "state_inv (pool w, ?a)" and dist: "distinct (map fst ?ns)"
    and lv: "\<And>q. q \<in> fst ` set ?ns \<Longrightarrow> live ?a q"
    using ok by (auto simp: list_ok_def)
  from allocslot_inv[OF inv hs]
  obtain s p' a' where r: "allocslot heapSize (pool w, ?a) = Inr (s, p', a')" by blast
  note st = allocslot_step[OF inv hs r]
  let ?ns' = "take k ?ns @ (s, x) # drop k ?ns"
  let ?w' = "w\<lparr>pool := p', objs := (objs w)(c := \<lparr>alloc = a', nodes = ?ns'\<rparr>)\<rparr>"
  have k: "k \<le> length ?ns" by (rule position_le[OF pos])
  have new: "s \<notin> fst ` set ?ns" using lv st(3) by blast
  have ins: "list_insert heapSize c pos x w = Inr (Some s, ?w')"
    using pos r by (simp add: list_insert_def allocate_def)
  have set': "fst ` set ?ns' = insert s (fst ` set ?ns)"
  proof -
    have "set ?ns' = insert (s, x) (set (take k ?ns) \<union> set (drop k ?ns))" by simp
    also have "set (take k ?ns) \<union> set (drop k ?ns) = set ?ns"
      by (metis append_take_drop_id set_append)
    finally show ?thesis by simp
  qed
  have dist': "distinct (map fst ?ns')"
  proof -
    have "distinct (map fst (take k ?ns) @ map fst (drop k ?ns))"
      using dist by (metis append_take_drop_id map_append)
    moreover have "s \<notin> set (map fst (take k ?ns))" "s \<notin> set (map fst (drop k ?ns))"
      using new by (auto dest: in_set_takeD in_set_dropD)
    ultimately show ?thesis by auto
  qed
  have lv': "\<forall>q \<in> set (map fst ?ns'). live a' q"
  proof
    fix q assume "q \<in> set (map fst ?ns')"
    then have "q \<in> insert s (fst ` set ?ns)" using set' by (simp only: set_map)
    then show "live a' q" using st(2)[of q] lv[of q] by blast
  qed
  have ok': "list_ok p' \<lparr>alloc = a', nodes = ?ns'\<rparr>"
    unfolding list_ok_def using st(1) dist' lv' by (simp only: slab_list.simps simp_thms)
  have ix: "index_of s ?ns' = Some k" by (rule index_of_inserted[OF k new])
  have nxt: "iterator_at ?ns' (Suc k) = pos"
  proof (cases pos)
    case None
    with pos have "k = length ?ns" by (simp add: position_def)
    then show ?thesis using None by (simp add: iterator_at_def)
  next
    case (Some q)
    with pos have "index_of q ?ns = Some k" by (simp add: position_def)
    from index_of_Some[OF this] have "k < length ?ns" "fst (?ns ! k) = q" by simp_all
    then show ?thesis using Some
      by (simp add: iterator_at_def nth_append min_absorb2)
  qed
  have pos': "position ?ns' pos = Some (Suc k)"
  proof (cases pos)
    case None
    with pos have "k = length ?ns" by (simp add: position_def)
    then show ?thesis using None by (simp add: position_def)
  next
    case (Some q)
    with pos have iq: "index_of q ?ns = Some k" by (simp add: position_def)
    from index_of_Some[OF iq] have "q \<in> fst ` set ?ns" by (metis imageI nth_mem)
    with new have "q \<noteq> s" by blast
    from index_of_shifted[OF iq this] Some show ?thesis by (simp add: position_def)
  qed
  show ?thesis
    apply (intro exI[of _ s] exI[of _ ?w'])
    using ins ok' st(4,6) ix nxt pos' by (simp add: list_next_def)
qed

lemma list_erase_ok:
  fixes w :: "'a world"
  assumes ok: "list_ok (pool w) (objs w b)" and bound: "slot_total (alloc (objs w b)) < 2 ^ 64"
    and ix: "index_of q (nodes (objs w b)) = Some k"
  shows "\<exists>w'. list_erase b (Some q) w = Inr (iterator_at (nodes (objs w b)) (Suc k), w')
           \<and> nodes (objs w' b) = take k (nodes (objs w b)) @ drop (Suc k) (nodes (objs w b))
           \<and> list_ok (pool w') (objs w' b)
           \<and> slot_total (alloc (objs w' b)) \<le> slot_total (alloc (objs w b))
           \<and> (\<forall>d. d \<noteq> b \<longrightarrow> objs w' d = objs w d)
           \<and> next_block (pool w') = next_block (pool w)
           \<and> inuse_items (pool w') = inuse_items (pool w) - 1"
proof -
  let ?ns = "nodes (objs w b)"
  let ?a = "alloc (objs w b)"
  have inv: "state_inv (pool w, ?a)" and dist: "distinct (map fst ?ns)"
    and lv: "\<And>q. q \<in> fst ` set ?ns \<Longrightarrow> live ?a q"
    using ok by (auto simp: list_ok_def)
  from index_of_Some[OF ix] have k: "k < length ?ns" "fst (?ns ! k) = q" by simp_all
  then have "q \<in> fst ` set ?ns" by (metis imageI nth_mem)
  then have lq: "live ?a q" by (rule lv)
  from freeslot_succeeds[OF inv lq bound]
  obtain p' a' where r: "freeslot q True (pool w, ?a) = Inr (p', a')" by blast
  note st = freeslot_step[OF inv lq r]
  let ?ns' = "take k ?ns @ drop (Suc k) ?ns"
  let ?w' = "w\<lparr>pool := p', objs := (objs w)(b := \<lparr>alloc = a', nodes = ?ns'\<rparr>)\<rparr>"
  have er: "list_erase b (Some q) w = Inr (iterator_at ?ns (Suc k), ?w')"
    using ix r by (simp add: list_erase_def deallocate_def)
  have split: "?ns = take k ?ns @ ?ns ! k # drop (Suc k) ?ns"
    using k(1) by (simp add: id_take_nth_drop)
  have "distinct (map fst (take k ?ns @ ?ns ! k # drop (Suc k) ?ns))"
    using dist split by simp
  then have dist': "distinct (map fst ?ns')" and notq: "q \<notin> fst ` set ?ns'"
    using k(2) by auto
  have sub: "fst ` set ?ns' \<subseteq> fst ` set ?ns"
    by (auto dest: in_set_takeD in_set_dropD)
  have lv': "\<forall>q' \<in> set (map fst ?ns'). live a' q'"
  proof
    fix q' assume "q' \<in> set (map fst ?ns')"
    then have in': "q' \<in> fst ` set ?ns'" by (simp only: set_map)
    with notq have "q' \<noteq> q" by blast
    moreover have "live ?a q'" using in' sub lv by blast
    ultimately show "live a' q'" using st(3)[of q'] by blast
  qed
  have ok': "list_ok p' \<lparr>alloc = a', nodes = ?ns'\<rparr>"
    unfolding list_ok_def using st(1) dist' lv' by (simp only: slab_list.simps simp_thms)
  show ?thesis
    apply (intro exI[of _ ?w'])
    using er ok' st(2,4,6) by simp
qed

lemma iterator_at_Cons_Suc: "iterator_at (n # ns) (Suc k) = iterator_at ns k"
  by (simp add: iterator_at_def)

lemma slab_list_ctor_ok:
  fixes w :: "'a world"
  assumes sz: "unat stackSize < 2 ^ 32"
  shows "\<exists>w'. slab_list_ctor stackSize this w = Inr w'
           \<and> list_ok (pool w') (objs w' this) \<and> nodes (objs w' this) = []
           \<and> (\<forall>d. d \<noteq> this \<longrightarrow> objs w' d = objs w d)
           \<and> next_block (pool w') = next_block (pool w)
           \<and> inuse_items (pool w') = inuse_items (pool w)"
proof -
  from ctor_inv[OF sz, of this "pool w"]
  obtain p' a' where c: "slab_allocator_ctor this stackSize (pool w) = Inr (p', a')"
      "state_inv (p', a')" "inuse_items p' = inuse_items (pool w)"
      "next_block p' = next_block (pool w)"
    by (elim exE conjE) (rule that; assumption)
  let ?w' = "w\<lparr>pool := p', objs := (objs w)(this := \<lparr>alloc = a', nodes = []\<rparr>)\<rparr>"
  have r: "slab_list_ctor stackSize this w = Inr ?w'" by (simp add: slab_list_ctor_def c(1))
  have ok: "list_ok (pool ?w') (objs ?w' this)" using c(2) by (simp add: list_ok_def)
  show ?thesis
    apply (rule exI[of _ ?w'])
    using r ok c(3,4) by simp
qed

lemma allocslot_dom:
  assumes inv: "state_inv (p, a)" and hs: "heapSize \<noteq> 0" "unat heapSize < 2 ^ 32"
    and r: "allocslot heapSize (p, a) = Inr (s, p', a')"
  shows "dom (mem a') \<subseteq> insert (HeapSlab (next_block p)) (dom (mem a))"
  using inv hs
proof (cases rule: allocslot_cases)
  case (listed sp rest slab)
  with r have "a' = pop_slot sp slab a" by simp
  then show ?thesis using listed(2) by (auto simp: pop_slot_def)
next
  case (added p1 a1)
  with r have "a' = pop_slot (HeapSlab (next_block p))
      \<lparr>slabSize = ucast heapSize, freeSlots = ucast heapSize,
       freeHead = rev [0..<unat heapSize]\<rparr> a1"
    by simp
  then show ?thesis using added(3) by (auto simp: pop_slot_def)
qed

lemma freeslot_dom:
  assumes lv: "live a s" and r0: "freeslot s True (p, a) = Inr (p', a')"
  shows "dom (mem a') \<subseteq> dom (mem a)"
proof -
  obtain sp i where s: "s = (sp, i)" by (cases s)
  from lv s obtain slab where m: "mem a sp = Some slab"
    by (auto simp: live_def split: option.splits)
  from freeslot_result[OF m r0[unfolded s]]
  have "a' = drop_slab sp slab (push_slot sp i slab a) \<or> a' = push_slot sp i slab a" by blast
  then show ?thesis using m by (auto simp: drop_slab_def push_slot_def split: if_splits)
qed

lemma list_insert_dom:
  fixes w :: "'a world"
  assumes ok: "list_ok (pool w) (objs w c)" and hs: "heapSize \<noteq> 0" "unat heapSize < 2 ^ 32"
    and r: "list_insert heapSize c pos x w = Inr (it, w')"
  shows "dom (mem (alloc (objs w' c)))
           \<subseteq> insert (HeapSlab (next_block (pool w))) (dom (mem (alloc (objs w c))))"
proof -
  have inv: "state_inv (pool w, alloc (objs w c))" using ok by (simp add: list_ok_def)
  from r obtain s p' a' where a: "allocslot heapSize (pool w, alloc (objs w c)) = Inr (s, p', a')"
    and w': "alloc (objs w' c) = a'"
    by (auto simp: list_insert_def allocate_def split: option.splits sum.splits)
  from allocslot_dom[OF inv hs a] w' show ?thesis by simp
qed

lemma list_erase_dom:
  fixes w :: "'a world"
  assumes ok: "list_ok (pool w) (objs w b)"
    and r: "list_erase b it w = Inr (it', w')"
  shows "dom (mem (alloc (objs w' b))) \<subseteq> dom (mem (alloc (objs w b)))"
proof -
  from r obtain q k p' a' where it: "it = Some q" and ix: "index_of q (nodes (objs w b)) = Some k"
    and f: "freeslot q True (pool w, alloc (objs w b)) = Inr (p', a')"
    and w': "alloc (objs w' b) = a'"
    by (auto simp: list_erase_def deallocate_def split: option.splits sum.splits)
  from index_of_Some[OF ix] have "q \<in> set (map fst (nodes (objs w b)))"
    by (metis imageI nth_mem set_map)
  then have "live (alloc (objs w b)) q" using ok unfolding list_ok_def by blast
  from freeslot_dom[OF this f] w' show ?thesis by simp
qed

lemma splice_loop_moves:
  fixes w :: "'a world"
  assumes ne: "b \<noteq> c" and hs: "heapSize \<noteq> 0" "unat heapSize < 2 ^ 32"
    and okb: "list_ok (pool w) (objs w b)" and okc: "list_ok (pool w) (objs w c)"
    and bound: "slot_total (alloc (objs w b)) < 2 ^ 64"
    and pos: "position (nodes (objs w c)) pos = Some k"
  shows "\<exists>w' M. splice_loop heapSize c pos b (list_begin (objs w b)) None w = Some (Inr w')
           \<and> nodes (objs w' b) = []
           \<and> nodes (objs w' c) = take k (nodes (objs w c)) @ M @ drop k (nodes (objs w c))
           \<and> map snd M = map snd (nodes (objs w b))
           \<and> list_ok (pool w') (objs w' c) \<and> list_ok (pool w') (objs w' b)
           \<and> (\<forall>d. d \<noteq> b \<and> d \<noteq> c \<longrightarrow> objs w' d = objs w d)
           \<and> inuse_items (pool w') = inuse_items (pool w)
           \<and> (dom (mem (alloc (objs w b))) \<inter> dom (mem (alloc (objs w c))) = {} \<longrightarrow>
                dom (mem (alloc (objs w' b))) \<inter> dom (mem (alloc (objs w' c))) = {})"
  using okb okc bound pos
proof (induction "nodes (objs w b)" arbitrary: w k)
  case Nil
  then have "list_begin (objs w b) = None" by (simp add: list_begin_def iterator_at_def)
  then have "splice_loop heapSize c pos b (list_begin (objs w b)) None w = Some (Inr w)"
    by (simp add: splice_loop.simps)
  moreover have "nodes (objs w c) = take k (nodes (objs w c)) @ [] @ drop k (nodes (objs w c))"
    by simp
  ultimately show ?case
    apply (intro exI[of _ w] exI[of _ "[]"])
    using Nil by simp
next
  case (Cons n ns)
  let ?q = "fst n"
  let ?x = "snd n"
  let ?nc = "nodes (objs w c)"
  have nb: "nodes (objs w b) = n # ns" using Cons.hyps(2) by simp
  have first: "list_begin (objs w b) = Some ?q"
    by (simp add: list_begin_def iterator_at_def nb)
  have deref: "list_deref (objs w b) (Some ?q) = Inr ?x"
    by (simp add: list_deref_def nb)
  from list_insert_ok[OF Cons.prems(2) hs Cons.prems(4), of ?x]
  obtain s w1 where i: "list_insert heapSize c pos ?x w = Inr (Some s, w1)"
      "nodes (objs w1 c) = take k ?nc @ (s, ?x) # drop k ?nc"
      "list_ok (pool w1) (objs w1 c)"
      "\<forall>d. d \<noteq> c \<longrightarrow> objs w1 d = objs w d"
      "next_block (pool w) \<le> next_block (pool w1)"
      "inuse_items (pool w1) = inuse_items (pool w) + 1"
      "list_next (objs w1 c) (Some s) = Inr pos"
      "position (nodes (objs w1 c)) pos = Some (Suc k)"
    by blast
  have b1: "objs w1 b = objs w b" using i(4) ne by simp
  have okb1: "list_ok (pool w1) (objs w1 b)"
    unfolding b1 by (rule list_ok_pool_mono[OF Cons.prems(1) i(5)])
  have bound1: "slot_total (alloc (objs w1 b)) < 2 ^ 64" unfolding b1 by (rule Cons.prems(3))
  have ix1: "index_of ?q (nodes (objs w1 b)) = Some 0" unfolding b1 nb by simp
  from list_erase_ok[OF okb1 bound1 ix1]
  obtain w2 where e: "list_erase b (Some ?q) w1 = Inr (iterator_at (nodes (objs w1 b)) (Suc 0), w2)"
      "nodes (objs w2 b) = take 0 (nodes (objs w1 b)) @ drop (Suc 0) (nodes (objs w1 b))"
      "list_ok (pool w2) (objs w2 b)"
      "slot_total (alloc (objs w2 b)) \<le> slot_total (alloc (objs w1 b))"
      "\<forall>d. d \<noteq> b \<longrightarrow> objs w2 d = objs w1 d"
      "next_block (pool w2) = next_block (pool w1)"
      "inuse_items (pool w2) = inuse_items (pool w1) - 1"
    by blast
  have nb2: "nodes (objs w2 b) = ns" using e(2) by (simp add: b1 nb)
  have it2: "iterator_at (nodes (objs w1 b)) (Suc 0) = list_begin (objs w2 b)"
    by (simp add: b1 nb nb2 list_begin_def iterator_at_Cons_Suc)
  have c2: "objs w2 c = objs w1 c" using e(5) ne by simp
  have okc2: "list_ok (pool w2) (objs w2 c)"
    unfolding c2 using list_ok_pool_mono[OF i(3), of "pool w2"] e(6) by simp
  have bound2: "slot_total (alloc (objs w2 b)) < 2 ^ 64" using e(4) bound1 by simp
  have pos2: "position (nodes (objs w2 c)) pos = Some (Suc k)" unfolding c2 by (rule i(8))
  from Cons.hyps(1)[OF nb2[symmetric] e(3) okc2 bound2 pos2]
  obtain w' M where r: "splice_loop heapSize c pos b (list_begin (objs w2 b)) None w2 = Some (Inr w')"
      "nodes (objs w' b) = []"
      "nodes (objs w' c) = take (Suc k) (nodes (objs w2 c)) @ M @ drop (Suc k) (nodes (objs w2 c))"
      "map snd M = map snd (nodes (objs w2 b))"
      "list_ok (pool w') (objs w' c)" "list_ok (pool w') (objs w' b)"
      "\<forall>d. d \<noteq> b \<and> d \<noteq> c \<longrightarrow> objs w' d = objs w2 d"
      "inuse_items (pool w') = inuse_items (pool w2)"
      "dom (mem (alloc (objs w2 b))) \<inter> dom (mem (alloc (objs w2 c))) = {} \<longrightarrow>
         dom (mem (alloc (objs w' b))) \<inter> dom (mem (alloc (objs w' c))) = {}"
    by (elim exE conjE) (rule that; assumption)
  have k: "k \<le> length ?nc" by (rule position_le[OF Cons.prems(4)])
  have step: "splice_loop heapSize c pos b (list_begin (objs w b)) None w
      = splice_loop heapSize c pos b (list_begin (objs w2 b)) None w2"
    by (subst splice_loop.simps) (simp add: first deref i(1,7) e(1) it2)
  have tk: "take (Suc k) (nodes (objs w2 c)) = take k ?nc @ [(s, ?x)]"
    unfolding c2 i(2) using k by (simp add: min_absorb2)
  have dr: "drop (Suc k) (nodes (objs w2 c)) = drop k ?nc"
    unfolding c2 i(2) using k by (simp add: min_absorb2)
  have nodes_c: "nodes (objs w' c) = take k ?nc @ ((s, ?x) # M) @ drop k ?nc"
    unfolding r(3) tk dr by simp
  have vals: "map snd ((s, ?x) # M) = map snd (nodes (objs w b))"
    using r(4) nb nb2 by simp
  have others: "\<forall>d. d \<noteq> b \<and> d \<noteq> c \<longrightarrow> objs w' d = objs w d"
    using r(7) e(5) i(4) by simp
  have inuse: "inuse_items (pool w') = inuse_items (pool w)"
    using r(8) e(7) i(6) by simp
  have dc1: "dom (mem (alloc (objs w1 c)))
      \<subseteq> insert (HeapSlab (next_block (pool w))) (dom (mem (alloc (objs w c))))"
    by (rule list_insert_dom[OF Cons.prems(2) hs i(1)])
  have db2: "dom (mem (alloc (objs w2 b))) \<subseteq> dom (mem (alloc (objs w1 b)))"
    by (rule list_erase_dom[OF okb1 e(1)])
  have "fresh_for (pool w) (alloc (objs w b))"
    using Cons.prems(1) by (simp add: list_ok_def state_inv_def)
  then have fresh: "HeapSlab (next_block (pool w)) \<notin> dom (mem (alloc (objs w b)))"
    by (auto simp: fresh_for_def)
  have disj: "dom (mem (alloc (objs w b))) \<inter> dom (mem (alloc (objs w c))) = {} \<longrightarrow>
                dom (mem (alloc (objs w' b))) \<inter> dom (mem (alloc (objs w' c))) = {}"
  proof
    assume "dom (mem (alloc (objs w b))) \<inter> dom (mem (alloc (objs w c))) = {}"
    then have "dom (mem (alloc (objs w2 b))) \<inter> dom (mem (alloc (objs w2 c))) = {}"
      using dc1 db2 fresh unfolding c2 b1 by blast
    then show "dom (mem (alloc (objs w' b))) \<inter> dom (mem (alloc (objs w' c))) = {}"
      using r(9) by simp
  qed
  have res: "splice_loop heapSize c pos b (list_begin (objs w b)) None w = Some (Inr w')"
    using step r(1) by simp
  show ?case
    by (intro exI[of _ w'] exI[of _ "(s, ?x) # M"] conjI)
       (fact res r(2) nodes_c vals r(5) r(6) others inuse disj)+
qed

lemma fresh1_at1_ctor: "slab_allocator_ctor 1 1 (fst two1) = Inr (pool_bc, fresh1_at1)"
  by (simp add: slab_allocator_ctor_def slab_new_def two1_def initSlab_def
      initSlab_loop.simps freeslot_def Let_def slab_item_free_def fresh1_at1_def pool_bc_def)

lemma world_bc_b: "list_ok (pool world_bc) (objs world_bc 0)"
proof -
  have inv: "state_inv two1"
    using trace_inv[OF trace_two1] by (simp add: config_ok_def)
  have "list_ok (fst two1) (objs world_bc 0)"
    unfolding list_ok_def using inv
    by (simp add: world_bc_def live_def two1_def)
  then show ?thesis
    by (rule list_ok_pool_mono) (simp add: world_bc_def pool_bc_def two1_def)
qed

lemma world_bc_c: "list_ok (pool world_bc) (objs world_bc 1)"
proof -
  have "trace 1 2 1 (fst two1) [] (pool_bc, fresh1_at1)"
    by (rule trace_ctor) (rule fresh1_at1_ctor)
  from trace_inv[OF this] have "state_inv (pool_bc, fresh1_at1)"
    by (simp add: config_ok_def)
  then show ?thesis
    by (simp add: list_ok_def world_bc_def)
qed

lemma world_bc_bound: "slot_total (alloc (objs world_bc 0)) < 2 ^ 64"
  using two1_slot_total by (simp add: world_bc_def)

lemma world_bc_built:
  "(case slab_list_ctor 1 0 \<lparr>pool = pool0, objs = raw_list\<rparr> of
      Inl e \<Rightarrow> Inl e
    | Inr w1 \<Rightarrow>
        (case list_push_back 2 0 1 w1 of
           Inl e \<Rightarrow> Inl e
         | Inr w2 \<Rightarrow>
             (case list_push_back 2 0 2 w2 of
                Inl e \<Rightarrow> Inl e
              | Inr w3 \<Rightarrow> slab_list_ctor 1 1 w3))) = Inr world_bc"
  using fresh1_at1_ctor
  by (simp add: slab_list_ctor_def list_push_back_def list_insert_def position_def
      fresh1_ctor fresh1_allocate_any full1_allocate world_bc_def case_prod_beta)

text \<open>
  Claim C5. Let \<open>b\<close> and \<open>c\<close> be two lists (\<open>list_ok\<close>: each with a consistent allocator,
  its nodes distinct live slots of it), \<open>b\<close> holding the elements \<open>e1..ei\<close>, and \<open>pos\<close> a
  position of \<open>c\<close> (before its \<open>k\<close>-th node, or its end); \<^verbatim>\<open>heapSize\<close> is not zero and below
  \<open>2^32\<close>, and the allocator of \<open>b\<close> holds fewer than \<open>2^64\<close> slots. Then
  \<^verbatim>\<open>c.splice(pos, b, b.begin(), b.end())\<close> returns; afterwards \<open>b\<close> is empty, \<open>c\<close> holds
  its first \<open>k\<close> nodes, then nodes with the values \<open>e1..ei\<close> in this order, then its
  other nodes; every node of \<open>c\<close> is a live slot of a slab held by the allocator of \<open>c\<close>,
  and of no slab of the allocator of \<open>b\<close> when the two allocators shared no slab before;
  other lists are unchanged and so is \<open>inuse_items\<close>.
\<close>

theorem splice_moves_all_nodes:
  fixes w :: "'a world"
  assumes "b \<noteq> c" and "heapSize \<noteq> 0" and "unat heapSize < 2 ^ 32"
    and "list_ok (pool w) (objs w b)" and "list_ok (pool w) (objs w c)"
    and "slot_total (alloc (objs w b)) < 2 ^ 64"
    and "position (nodes (objs w c)) pos = Some k"
  shows "\<exists>w' M. slab_list_splice heapSize c pos b (list_begin (objs w b)) None w = Some (Inr w')
           \<and> nodes (objs w' b) = []
           \<and> nodes (objs w' c) = take k (nodes (objs w c)) @ M @ drop k (nodes (objs w c))
           \<and> map snd M = map snd (nodes (objs w b))
           \<and> (\<forall>q \<in> set (map fst (nodes (objs w' c))).
                 live (alloc (objs w' c)) q \<and> mem (alloc (objs w' c)) (fst q) \<noteq> None)
           \<and> distinct (map fst (nodes (objs w' c)))
           \<and> (\<forall>d. d \<noteq> b \<and> d \<noteq> c \<longrightarrow> objs w' d = objs w d)
           \<and> inuse_items (pool w') = inuse_items (pool w)
           \<and> (dom (mem (alloc (objs w b))) \<inter> dom (mem (alloc (objs w c))) = {} \<longrightarrow>
                (\<forall>q \<in> set (map fst (nodes (objs w' c))).
                   mem (alloc (objs w' b)) (fst q) = None))"
proof -
  from splice_loop_moves[OF assms]
  obtain w' M where r: "splice_loop heapSize c pos b (list_begin (objs w b)) None w = Some (Inr w')"
      "nodes (objs w' b) = []"
      "nodes (objs w' c) = take k (nodes (objs w c)) @ M @ drop k (nodes (objs w c))"
      "map snd M = map snd (nodes (objs w b))"
      "list_ok (pool w') (objs w' c)"
      "\<forall>d. d \<noteq> b \<and> d \<noteq> c \<longrightarrow> objs w' d = objs w d"
      "inuse_items (pool w') = inuse_items (pool w)"
      "dom (mem (alloc (objs w b))) \<inter> dom (mem (alloc (objs w c))) = {} \<longrightarrow>
         dom (mem (alloc (objs w' b))) \<inter> dom (mem (alloc (objs w' c))) = {}"
    by (elim exE conjE) (rule that; assumption)
  have lv: "\<forall>q \<in> set (map fst (nodes (objs w' c))).
               live (alloc (objs w' c)) q \<and> mem (alloc (objs w' c)) (fst q) \<noteq> None"
  proof
    fix q assume "q \<in> set (map fst (nodes (objs w' c)))"
    with r(5) have "live (alloc (objs w' c)) q" unfolding list_ok_def by blast
    then show "live (alloc (objs w' c)) q \<and> mem (alloc (objs w' c)) (fst q) \<noteq> None"
      by (simp add: live_def split: option.splits)
  qed
  have d: "distinct (map fst (nodes (objs w' c)))" using r(5) by (simp add: list_ok_def)
  have own: "dom (mem (alloc (objs w b))) \<inter> dom (mem (alloc (objs w c))) = {} \<longrightarrow>
                (\<forall>q \<in> set (map fst (nodes (objs w' c))).
                   mem (alloc (objs w' b)) (fst q) = None)"
  proof (intro impI ballI)
    fix q assume "dom (mem (alloc (objs w b))) \<inter> dom (mem (alloc (objs w c))) = {}"
      and q: "q \<in> set (map fst (nodes (objs w' c)))"
    then have "dom (mem (alloc (objs w' b))) \<inter> dom (mem (alloc (objs w' c))) = {}"
      using r(8) by simp
    moreover have "fst q \<in> dom (mem (alloc (objs w' c)))"
      using lv q by (auto simp: domIff)
    ultimately show "mem (alloc (objs w' b)) (fst q) = None" by (auto simp: domIff)
  qed
  show ?thesis
    unfolding slab_list_splice_def
    by (intro exI[of _ w'] exI[of _ M] conjI r(1) r(2) r(3) r(4) lv d r(6) r(7) own)
qed

theorem splice_moves_all_nodes_witness:
  "\<exists>w'. slab_list_splice 2 1 None 0 (list_begin (objs world_bc 0)) None world_bc = Some (Inr w')
      \<and> nodes (objs w' 0) = [] \<and> map snd (nodes (objs w' 1)) = [1, 2]
      \<and> inuse_items (pool w') = 2
      \<and> list_all (\<lambda>n. mem (alloc (objs w' 1)) (fst (fst n)) \<noteq> None
                       \<and> mem (alloc (objs w' 0)) (fst (fst n)) = None) (nodes (objs w' 1))"
proof -
  have pos: "position (nodes (objs world_bc 1)) None = Some 0"
    by (simp add: position_def world_bc_def)
  have ne: "(0::nat) \<noteq> 1" and hs: "(2::size_t) \<noteq> 0" "unat (2::size_t) < 2 ^ 32" by simp_all
  from splice_moves_all_nodes[OF ne hs world_bc_b world_bc_c world_bc_bound pos]
  obtain w' M where r0:
      "slab_list_splice 2 1 None 0 (list_begin (objs world_bc 0)) None world_bc = Some (Inr w')
       \<and> nodes (objs w' 0) = []
       \<and> nodes (objs w' 1) = take 0 (nodes (objs world_bc 1)) @ M @ drop 0 (nodes (objs world_bc 1))
       \<and> map snd M = map snd (nodes (objs world_bc 0))
       \<and> (\<forall>q \<in> set (map fst (nodes (objs w' 1))).
                 live (alloc (objs w' 1)) q \<and> mem (alloc (objs w' 1)) (fst q) \<noteq> None)
       \<and> distinct (map fst (nodes (objs w' 1)))
       \<and> (\<forall>d. d \<noteq> 0 \<and> d \<noteq> 1 \<longrightarrow> objs w' d = objs world_bc d)
       \<and> inuse_items (pool w') = inuse_items (pool world_bc)
       \<and> (dom (mem (alloc (objs world_bc 0))) \<inter> dom (mem (alloc (objs world_bc 1))) = {} \<longrightarrow>
                (\<forall>q \<in> set (map fst (nodes (objs w' 1))).
                   mem (alloc (objs w' 0)) (fst q) = None))"
    by (elim exE) (rule that)
  note r = r0[THEN conjunct1] r0[THEN conjunct2, THEN conjunct1]
    r0[THEN conjunct2, THEN conjunct2, THEN conjunct1]
    r0[THEN conjunct2, THEN conjunct2, THEN conjunct2, THEN conjunct1]
    r0[THEN conjunct2, THEN conjunct2, THEN conjunct2, THEN conjunct2, THEN conjunct2,
       THEN conjunct2, THEN conjunct2, THEN conjunct1]
  note own = r0[THEN conjunct2, THEN conjunct2, THEN conjunct2, THEN conjunct2, THEN conjunct1]
    r0[THEN conjunct2, THEN conjunct2, THEN conjunct2, THEN conjunct2, THEN conjunct2,
       THEN conjunct2, THEN conjunct2, THEN conjunct2]
  have "dom (mem (alloc (objs world_bc 0))) \<inter> dom (mem (alloc (objs world_bc 1))) = {}"
    by (simp add: world_bc_def two1_def fresh1_at1_def)
  with own have "list_all (\<lambda>n. mem (alloc (objs w' 1)) (fst (fst n)) \<noteq> None
                       \<and> mem (alloc (objs w' 0)) (fst (fst n)) = None) (nodes (objs w' 1))"
    by (simp add: list_all_iff)
  moreover
  have "map snd (nodes (objs w' 1)) = [1, 2]"
    unfolding r(3) using r(4) by (simp add: world_bc_def)
  moreover have "inuse_items (pool w') = 2" unfolding r(5) by (simp add: world_bc_def pool_bc_def)
  ultimately show ?thesis using r(1,2) by (intro exI[of _ w']) simp
qed

section \<open>Swapping lists\<close>

lemma swap_loop_moves:
  fixes w :: "'a world"
  assumes ne: "b \<noteq> c" and hs: "heapSize \<noteq> 0" "unat heapSize < 2 ^ 32"
    and okb: "list_ok (pool w) (objs w b)" and okc: "list_ok (pool w) (objs w c)"
    and bound: "slot_total (alloc (objs w b)) < 2 ^ 64"
  shows "\<exists>w' T M. swap_loop heapSize c b (list_begin (objs w b)) None steps w
               = Some (Inr (steps @ T, w'))
           \<and> nodes (objs w' b) = []
           \<and> nodes (objs w' c) = nodes (objs w c) @ M
           \<and> map snd M = map snd (nodes (objs w b))
           \<and> list_ok (pool w') (objs w' c) \<and> list_ok (pool w') (objs w' b)
           \<and> (\<forall>d. d \<noteq> b \<and> d \<noteq> c \<longrightarrow> objs w' d = objs w d)
           \<and> inuse_items (pool w') = inuse_items (pool w)
           \<and> map (\<lambda>v. inuse_items (pool v)) T
               = concat (replicate (length (nodes (objs w b)))
                   [inuse_items (pool w) + 1, inuse_items (pool w)])
           \<and> map (\<lambda>v. length (nodes (objs v b)) + length (nodes (objs v c))) T
               = concat (replicate (length (nodes (objs w b)))
                   [length (nodes (objs w b)) + length (nodes (objs w c)) + 1,
                    length (nodes (objs w b)) + length (nodes (objs w c))])
           \<and> (\<forall>n ns. nodes (objs w b) = n # ns \<longrightarrow>
                 (\<exists>w1 T'. list_push_back heapSize c (snd n) w = Inr w1 \<and> T = w1 # T'))"
  using okb okc bound
proof (induction "nodes (objs w b)" arbitrary: w steps)
  case Nil
  then have "list_begin (objs w b) = None" by (simp add: list_begin_def iterator_at_def)
  then have "swap_loop heapSize c b (list_begin (objs w b)) None steps w = Some (Inr (steps @ [], w))"
    by (simp add: swap_loop.simps)
  then show ?case
    apply (intro exI[of _ w] exI[of _ "[]"] exI[of _ "[]"])
    using Nil by simp
next
  case (Cons n ns)
  let ?q = "fst n"
  let ?x = "snd n"
  let ?nc = "nodes (objs w c)"
  have nb: "nodes (objs w b) = n # ns" using Cons.hyps(2) by simp
  have first: "list_begin (objs w b) = Some ?q"
    by (simp add: list_begin_def iterator_at_def nb)
  have deref: "list_deref (objs w b) (Some ?q) = Inr ?x"
    by (simp add: list_deref_def nb)
  have pos: "position ?nc None = Some (length ?nc)" by (simp add: position_def)
  from list_insert_ok[OF Cons.prems(2) hs pos, of ?x]
  obtain s w1 where i: "list_insert heapSize c None ?x w = Inr (Some s, w1)"
      "nodes (objs w1 c) = take (length ?nc) ?nc @ (s, ?x) # drop (length ?nc) ?nc"
      "list_ok (pool w1) (objs w1 c)"
      "\<forall>d. d \<noteq> c \<longrightarrow> objs w1 d = objs w d"
      "next_block (pool w) \<le> next_block (pool w1)"
      "inuse_items (pool w1) = inuse_items (pool w) + 1"
    by blast
  have pb: "list_push_back heapSize c ?x w = Inr w1" by (simp add: list_push_back_def i(1))
  have nc1: "nodes (objs w1 c) = ?nc @ [(s, ?x)]" using i(2) by simp
  have b1: "objs w1 b = objs w b" using i(4) ne by simp
  have okb1: "list_ok (pool w1) (objs w1 b)"
    unfolding b1 by (rule list_ok_pool_mono[OF Cons.prems(1) i(5)])
  have bound1: "slot_total (alloc (objs w1 b)) < 2 ^ 64" unfolding b1 by (rule Cons.prems(3))
  have ix1: "index_of ?q (nodes (objs w1 b)) = Some 0" unfolding b1 nb by simp
  from list_erase_ok[OF okb1 bound1 ix1]
  obtain w2 where e: "list_erase b (Some ?q) w1 = Inr (iterator_at (nodes (objs w1 b)) (Suc 0), w2)"
      "nodes (objs w2 b) = take 0 (nodes (objs w1 b)) @ drop (Suc 0) (nodes (objs w1 b))"
      "list_ok (pool w2) (objs w2 b)"
      "slot_total (alloc (objs w2 b)) \<le> slot_total (alloc (objs w1 b))"
      "\<forall>d. d \<noteq> b \<longrightarrow> objs w2 d = objs w1 d"
      "next_block (pool w2) = next_block (pool w1)"
      "inuse_items (pool w2) = inuse_items (pool w1) - 1"
    by blast
  have nb2: "nodes (objs w2 b) = ns" using e(2) by (simp add: b1 nb)
  have it2: "iterator_at (nodes (objs w1 b)) (Suc 0) = list_begin (objs w2 b)"
    by (simp add: b1 nb nb2 list_begin_def iterator_at_Cons_Suc)
  have c2: "objs w2 c = objs w1 c" using e(5) ne by simp
  have okc2: "list_ok (pool w2) (objs w2 c)"
    unfolding c2 using list_ok_pool_mono[OF i(3), of "pool w2"] e(6) by simp
  have bound2: "slot_total (alloc (objs w2 b)) < 2 ^ 64" using e(4) bound1 by simp
  have inuse2: "inuse_items (pool w2) = inuse_items (pool w)" using e(7) i(6) by simp
  from Cons.hyps(1)[OF nb2[symmetric] e(3) okc2 bound2, of "steps @ [w1, w2]"]
  obtain w' T M where r:
      "swap_loop heapSize c b (list_begin (objs w2 b)) None (steps @ [w1, w2]) w2
         = Some (Inr ((steps @ [w1, w2]) @ T, w'))"
      "nodes (objs w' b) = []"
      "nodes (objs w' c) = nodes (objs w2 c) @ M"
      "map snd M = map snd (nodes (objs w2 b))"
      "list_ok (pool w') (objs w' c)" "list_ok (pool w') (objs w' b)"
      "\<forall>d. d \<noteq> b \<and> d \<noteq> c \<longrightarrow> objs w' d = objs w2 d"
      "inuse_items (pool w') = inuse_items (pool w2)"
      "map (\<lambda>v. inuse_items (pool v)) T
               = concat (replicate (length (nodes (objs w2 b)))
                   [inuse_items (pool w2) + 1, inuse_items (pool w2)])"
      "map (\<lambda>v. length (nodes (objs v b)) + length (nodes (objs v c))) T
               = concat (replicate (length (nodes (objs w2 b)))
                   [length (nodes (objs w2 b)) + length (nodes (objs w2 c)) + 1,
                    length (nodes (objs w2 b)) + length (nodes (objs w2 c))])"
    by (elim exE conjE) (rule that; assumption)
  have step: "swap_loop heapSize c b (list_begin (objs w b)) None steps w
      = Some (Inr (steps @ ([w1, w2] @ T), w'))"
    by (subst swap_loop.simps) (simp add: first deref pb e(1) it2 r(1))
  have nodes_c: "nodes (objs w' c) = ?nc @ ((s, ?x) # M)"
    unfolding r(3) c2 nc1 by simp
  have vals: "map snd ((s, ?x) # M) = map snd (nodes (objs w b))"
    using r(4) nb nb2 by simp
  have others: "\<forall>d. d \<noteq> b \<and> d \<noteq> c \<longrightarrow> objs w' d = objs w d"
    using r(7) e(5) i(4) by simp
  have inuse: "inuse_items (pool w') = inuse_items (pool w)"
    using r(8) inuse2 by simp
  have tr_inuse: "map (\<lambda>v. inuse_items (pool v)) ([w1, w2] @ T)
      = concat (replicate (length (nodes (objs w b)))
          [inuse_items (pool w) + 1, inuse_items (pool w)])"
    using r(9) by (simp add: nb nb2 inuse2 i(6))
  have tr_count: "map (\<lambda>v. length (nodes (objs v b)) + length (nodes (objs v c))) ([w1, w2] @ T)
      = concat (replicate (length (nodes (objs w b)))
          [length (nodes (objs w b)) + length (nodes (objs w c)) + 1,
           length (nodes (objs w b)) + length (nodes (objs w c))])"
    using r(10) by (simp add: nb nb2 b1 c2 nc1)
  have firststep: "\<forall>n' ns'. nodes (objs w b) = n' # ns' \<longrightarrow>
                 (\<exists>v T'. list_push_back heapSize c (snd n') w = Inr v \<and> [w1, w2] @ T = v # T')"
    using pb nb by auto
  show ?case
    by (intro exI[of _ w'] exI[of _ "[w1, w2] @ T"] exI[of _ "(s, ?x) # M"] conjI)
       (fact step r(2) nodes_c vals r(5) r(6) others inuse tr_inuse tr_count firststep)+
qed

lemma world_bc_push_back: "list_push_back 2 1 1 world_bc = Inr world_bc_pushed"
  by (simp add: list_push_back_def list_insert_def position_def world_bc_def pool_bc_def
      fresh1_at1_def allocate_def allocslot_def Let_def slab_item_allocate_def
      world_bc_pushed_def)

lemma swap_steps_empty_this:
  assumes "nodes (objs w c) = []"
    and "swap_loop heapSize c b (list_begin (objs w b)) None [] w = Some (Inr (T, w'))"
  shows "slab_list_swap_steps heapSize c b w = Some (Inr (T, w'))"
proof -
  have "list_begin (objs w c) = None" using assms(1) by (simp add: list_begin_def iterator_at_def)
  moreover have "swap_loop heapSize b c None None T w' = Some (Inr (T, w'))"
    by (simp add: swap_loop.simps)
  ultimately show ?thesis using assms(2) by (simp add: slab_list_swap_steps_def)
qed

text \<open>
  Claim C6, as the code has it. Let \<open>b\<close> hold \<open>i\<close> elements and \<open>c\<close> be another list, empty
  (both \<open>list_ok\<close>; \<^verbatim>\<open>heapSize\<close> not zero and below \<open>2^32\<close>; fewer than \<open>2^64\<close> slots in the
  allocator of \<open>b\<close>). Then
  \<^verbatim>\<open>c.swap(b)\<close> returns, \<open>b\<close> is empty afterwards and \<open>c\<close> holds the values of \<open>b\<close> in their
  order, and \<open>inuse_items\<close> has its value from before the call. During the call each
  element is first appended to \<open>c\<close> and then erased from \<open>b\<close>: the states after the
  statements of the loop have \<open>inuse_items\<close> alternately one above its value from before
  the call and equal to it, and the two lists hold alternately \<open>i + 1\<close> and \<open>i\<close> nodes.
\<close>

theorem swap_into_empty_list:
  fixes w :: "'a world"
  assumes "b \<noteq> c" and "heapSize \<noteq> 0" and "unat heapSize < 2 ^ 32"
    and "list_ok (pool w) (objs w b)" and "list_ok (pool w) (objs w c)"
    and "slot_total (alloc (objs w b)) < 2 ^ 64"
    and "nodes (objs w c) = []"
  shows "\<exists>T w'. slab_list_swap_steps heapSize c b w = Some (Inr (T, w'))
           \<and> slab_list_swap heapSize c b w = Some (Inr w')
           \<and> nodes (objs w' b) = []
           \<and> map snd (nodes (objs w' c)) = map snd (nodes (objs w b))
           \<and> inuse_items (pool w') = inuse_items (pool w)
           \<and> map (\<lambda>v. inuse_items (pool v)) T
               = concat (replicate (length (nodes (objs w b)))
                   [inuse_items (pool w) + 1, inuse_items (pool w)])
           \<and> map (\<lambda>v. length (nodes (objs v b)) + length (nodes (objs v c))) T
               = concat (replicate (length (nodes (objs w b)))
                   [length (nodes (objs w b)) + 1, length (nodes (objs w b))])"
proof -
  from swap_loop_moves[OF assms(1-6), of "[]"]
  obtain w' T M where r:
      "swap_loop heapSize c b (list_begin (objs w b)) None [] w = Some (Inr ([] @ T, w'))"
      "nodes (objs w' b) = []"
      "nodes (objs w' c) = nodes (objs w c) @ M"
      "map snd M = map snd (nodes (objs w b))"
      "inuse_items (pool w') = inuse_items (pool w)"
      "map (\<lambda>v. inuse_items (pool v)) T
               = concat (replicate (length (nodes (objs w b)))
                   [inuse_items (pool w) + 1, inuse_items (pool w)])"
      "map (\<lambda>v. length (nodes (objs v b)) + length (nodes (objs v c))) T
               = concat (replicate (length (nodes (objs w b)))
                   [length (nodes (objs w b)) + length (nodes (objs w c)) + 1,
                    length (nodes (objs w b)) + length (nodes (objs w c))])"
    by (elim exE conjE) (rule that; assumption)
  have steps: "slab_list_swap_steps heapSize c b w = Some (Inr (T, w'))"
    using swap_steps_empty_this[OF assms(7), of heapSize b T w'] r(1) by simp
  have swap: "slab_list_swap heapSize c b w = Some (Inr w')"
    by (simp add: slab_list_swap_def steps)
  have vals: "map snd (nodes (objs w' c)) = map snd (nodes (objs w b))"
    using r(3,4) assms(7) by simp
  have count: "map (\<lambda>v. length (nodes (objs v b)) + length (nodes (objs v c))) T
               = concat (replicate (length (nodes (objs w b)))
                   [length (nodes (objs w b)) + 1, length (nodes (objs w b))])"
    using r(7) assms(7) by simp
  show ?thesis
    by (intro exI[of _ T] exI[of _ w'] conjI) (fact steps swap r(2) vals r(5) r(6) count)+
qed

theorem swap_into_empty_list_witness:
  "\<exists>T w'. slab_list_swap_steps 2 1 0 world_bc = Some (Inr (T, w'))
      \<and> nodes (objs w' 0) = [] \<and> map snd (nodes (objs w' 1)) = [1, 2]
      \<and> inuse_items (pool w') = 2
      \<and> map (\<lambda>v. inuse_items (pool v)) T = [3, 2, 3, 2]"
proof -
  have c: "nodes (objs world_bc 1) = []" by (simp add: world_bc_def)
  have ne: "(0::nat) \<noteq> 1" and hs: "(2::size_t) \<noteq> 0" "unat (2::size_t) < 2 ^ 32" by simp_all
  from swap_into_empty_list[OF ne hs world_bc_b world_bc_c world_bc_bound c]
  obtain T w' where r:
      "slab_list_swap_steps 2 1 0 world_bc = Some (Inr (T, w'))"
      "nodes (objs w' 0) = []"
      "map snd (nodes (objs w' 1)) = map snd (nodes (objs world_bc 0))"
      "inuse_items (pool w') = inuse_items (pool world_bc)"
      "map (\<lambda>v. inuse_items (pool v)) T
               = concat (replicate (length (nodes (objs world_bc 0)))
                   [inuse_items (pool world_bc) + 1, inuse_items (pool world_bc)])"
    by (elim exE conjE) (rule that; assumption)
  have "map snd (nodes (objs w' 1)) = [1, 2]"
    unfolding r(3) by (simp add: world_bc_def)
  moreover have "inuse_items (pool w') = 2" unfolding r(4) by (simp add: world_bc_def pool_bc_def)
  moreover have "map (\<lambda>v. inuse_items (pool v)) T = [3, 2, 3, 2]"
    unfolding r(5) by (simp add: world_bc_def pool_bc_def numeral_2_eq_2)
  ultimately show ?thesis using r(1,2) by (intro exI[of _ T] exI[of _ w']) simp
qed

text \<open>
  The claim as the specification has it fails on \<open>world_bc\<close>, where \<open>b\<close> holds \<open>i = 2\<close>
  elements, \<open>c\<close> is empty and \<open>inuse_items = 2\<close>: the first state that \<^verbatim>\<open>c.swap(b)\<close> passes
  through is \<open>world_bc_pushed\<close>, in which the two lists hold three nodes and
  \<open>inuse_items = 3\<close>.
\<close>

theorem swap_transient_counterexample:
  "nodes (objs world_bc 1) = [] \<and> length (nodes (objs world_bc 0)) = 2
   \<and> inuse_items (pool world_bc) = 2
   \<and> (\<exists>T w'. slab_list_swap_steps 2 1 0 world_bc = Some (Inr (world_bc_pushed # T, w')))
   \<and> inuse_items (pool world_bc_pushed) = 3
   \<and> length (nodes (objs world_bc_pushed 0)) + length (nodes (objs world_bc_pushed 1)) = 3"
proof -
  have c: "nodes (objs world_bc 1) = []" by (simp add: world_bc_def)
  have b: "nodes (objs world_bc 0) = [((StackSlab 0, 0), 1), ((HeapSlab 0, 1), 2)]"
    by (simp add: world_bc_def)
  have ne: "(0::nat) \<noteq> 1" and hs: "(2::size_t) \<noteq> 0" "unat (2::size_t) < 2 ^ 32" by simp_all
  from swap_loop_moves[OF ne hs world_bc_b world_bc_c world_bc_bound, of "[]"]
  obtain w' T where r:
      "swap_loop 2 1 0 (list_begin (objs world_bc 0)) None [] world_bc = Some (Inr ([] @ T, w'))"
      "\<forall>n ns. nodes (objs world_bc 0) = n # ns \<longrightarrow>
                 (\<exists>w1 T'. list_push_back 2 1 (snd n) world_bc = Inr w1 \<and> T = w1 # T')"
    by (elim exE conjE) (rule that; assumption)
  from r(2) b obtain w1 T' where f: "list_push_back 2 1 1 world_bc = Inr w1" "T = w1 # T'"
    by auto
  from f(1)[unfolded world_bc_push_back] have w1: "w1 = world_bc_pushed" by simp
  have "slab_list_swap_steps 2 1 0 world_bc = Some (Inr (world_bc_pushed # T', w'))"
    using swap_steps_empty_this[OF c, of 2 0 T w'] r(1) f(2) w1 by simp
  then have ex: "\<exists>T w'. slab_list_swap_steps 2 1 0 world_bc = Some (Inr (world_bc_pushed # T, w'))"
    by blast
  have rest: "length (nodes (objs world_bc 0)) = 2" "inuse_items (pool world_bc) = 2"
      "inuse_items (pool world_bc_pushed) = 3"
      "length (nodes (objs world_bc_pushed 0)) + length (nodes (objs world_bc_pushed 1)) = 3"
    by (simp_all add: world_bc_def pool_bc_def world_bc_pushed_def)
  show ?thesis by (intro conjI) (fact c rest ex)+
qed

section \<open>Assigning a container to itself\<close>

lemma vworld_123_built:
  "vector_push_back 4 0 3 (vector_push_back 4 0 2 (vector_push_back 4 0 1
     (slab_vector_ctor 4 0 \<lparr>vpool = pool0, vecs = raw_vector\<rparr>))) = vworld_123"
  by (simp add: vector_push_back_def slab_vector_ctor_def vector_reserve_def Let_def
      slab_vector_allocator_ctor_def slab_vector_allocator_allocate_def slab_new_def pool0_def
      vworld_123_def raw_vector_def)

lemma deallocate_all_ok:
  assumes "state_inv (p, a)" "distinct ps" "\<forall>q \<in> set ps. live a q" "slot_total a < 2 ^ 64"
  shows "\<exists>p' a'. deallocate_all ps (p, a) = Inr (p', a') \<and> state_inv (p', a')
           \<and> inuse_items p' = inuse_items p - int (length ps)"
  using assms
proof (induction ps arbitrary: p a)
  case Nil
  then show ?case by simp
next
  case (Cons s ps)
  have lv: "live a s" using Cons.prems(3) by simp
  from freeslot_succeeds[OF Cons.prems(1) lv Cons.prems(4)]
  obtain p1 a1 where r: "freeslot s True (p, a) = Inr (p1, a1)" by blast
  note st = freeslot_step[OF Cons.prems(1) lv r]
  have d: "distinct ps" and notin: "s \<notin> set ps" using Cons.prems(2) by simp_all
  have lv1: "\<forall>q \<in> set ps. live a1 q"
  proof
    fix q assume q: "q \<in> set ps"
    then have "live a q" using Cons.prems(3) by simp
    moreover have "q \<noteq> s" using q notin by blast
    ultimately show "live a1 q" using st(3)[of q] by blast
  qed
  have b1: "slot_total a1 < 2 ^ 64" using st(2) Cons.prems(4) by simp
  from Cons.IH[OF st(1) d lv1 b1]
  obtain p' a' where r': "deallocate_all ps (p1, a1) = Inr (p', a')" "state_inv (p', a')"
      "inuse_items p' = inuse_items p1 - int (length ps)"
    by blast
  have "deallocate_all (s # ps) (p, a) = Inr (p', a')"
    by (simp add: deallocate_def r r'(1))
  moreover have "inuse_items p' = inuse_items p - int (length (s # ps))"
    using r'(3) st(4) by simp
  ultimately show ?case using r'(2) by blast
qed

lemma velems_reserve: "velems (vecs (vector_reserve stackSize this n w) d) = velems (vecs w d)"
  by (simp add: vector_reserve_def Let_def split: prod.splits)

text \<open>
  Claim C9. Assigning a list to itself (a \<open>list_ok\<close> list whose allocator holds fewer
  than \<open>2^64\<close> slots) returns and leaves the list empty, whatever it
  held: \<^verbatim>\<open>copy\<close> clears the list (every node is deallocated) and then walks the same, now
  empty, list. Assigning a vector to itself leaves the vector empty too, whatever it
  held; for a vector whose size is within its capacity the assignment is exactly
  \<^verbatim>\<open>clear()\<close>.
\<close>

theorem self_assignment_empties:
  fixes w :: "'a world" and vw :: "'b vworld"
  assumes "list_ok (pool w) (objs w L)" and "slot_total (alloc (objs w L)) < 2 ^ 64"
  shows "(\<exists>w'. slab_list_assign heapSize L L w = Some (Inr w') \<and> list_clear L w = Inr w'
            \<and> nodes (objs w' L) = []
            \<and> inuse_items (pool w') = inuse_items (pool w) - int (length (nodes (objs w L))))
         \<and> velems (vecs (slab_vector_assign stackSize V V vw) V) = []
         \<and> (length (velems (vecs vw V)) \<le> vcapacity (vecs vw V) \<longrightarrow>
              slab_vector_assign stackSize V V vw = vector_clear V vw)"
proof -
  let ?ns = "nodes (objs w L)"
  have inv: "state_inv (pool w, alloc (objs w L))" and d: "distinct (map fst ?ns)"
    and lv: "\<forall>q \<in> set (map fst ?ns). live (alloc (objs w L)) q"
    using assms(1) unfolding list_ok_def by blast+
  from deallocate_all_ok[OF inv d lv assms(2)]
  obtain p' a' where r: "deallocate_all (map fst ?ns) (pool w, alloc (objs w L)) = Inr (p', a')"
      "inuse_items p' = inuse_items (pool w) - int (length (map fst ?ns))"
    by blast
  let ?w' = "w\<lparr>pool := p', objs := (objs w)(L := \<lparr>alloc = a', nodes = []\<rparr>)\<rparr>"
  have clr: "list_clear L w = Inr ?w'" by (simp add: list_clear_def r(1))
  have "list_begin (objs ?w' L) = None" by (simp add: list_begin_def iterator_at_def)
  then have "copy_loop heapSize L L (list_begin (objs ?w' L)) ?w' = Some (Inr ?w')"
    by (simp add: copy_loop.simps)
  then have asg: "slab_list_assign heapSize L L w = Some (Inr ?w')"
    by (simp add: slab_list_assign_def slab_list_copy_def clr)
  have l: "\<exists>w'. slab_list_assign heapSize L L w = Some (Inr w') \<and> list_clear L w = Inr w'
            \<and> nodes (objs w' L) = []
            \<and> inuse_items (pool w') = inuse_items (pool w) - int (length (nodes (objs w L)))"
    apply (intro exI[of _ ?w'])
    using asg clr r(2) by simp
  let ?w1 = "vector_reserve stackSize V (length (velems (vecs vw V))) vw"
  have gen: "slab_vector_assign stackSize V V vw = vector_clear V ?w1"
    by (simp add: slab_vector_assign_def Let_def vector_clear_def)
  have e: "velems (vecs (slab_vector_assign stackSize V V vw) V) = []"
    unfolding gen by (simp add: vector_clear_def)
  have v: "length (velems (vecs vw V)) \<le> vcapacity (vecs vw V) \<longrightarrow>
              slab_vector_assign stackSize V V vw = vector_clear V vw"
    unfolding gen by (simp add: vector_reserve_def)
  show ?thesis by (intro conjI) (fact l v e)+
qed

theorem self_assignment_empties_witness:
  "(\<exists>w'. slab_list_assign 2 0 0 world_bc = Some (Inr w') \<and> nodes (objs w' 0) = []
       \<and> inuse_items (pool w') = 0)
   \<and> map snd (nodes (objs world_bc 0)) = [1, 2]
   \<and> velems (vecs (slab_vector_assign 4 0 0 vworld_123) 0) = []
   \<and> slab_vector_assign 4 0 0 vworld_123 = vector_clear 0 vworld_123
   \<and> velems (vecs vworld_123 0) = [1, 2, 3]"
proof -
  have cap: "length (velems (vecs vworld_123 0)) \<le> vcapacity (vecs vworld_123 0)"
    by (simp add: vworld_123_def)
  note t = self_assignment_empties[OF world_bc_b world_bc_bound, of 2 4 0 vworld_123]
  from t[THEN conjunct1]
  obtain w' where r: "slab_list_assign 2 0 0 world_bc = Some (Inr w')" "nodes (objs w' 0) = []"
      "inuse_items (pool w') = inuse_items (pool world_bc) - int (length (nodes (objs world_bc 0)))"
    by (elim exE conjE) (rule that; assumption)
  have "inuse_items (pool w') = 0" unfolding r(3) by (simp add: world_bc_def pool_bc_def)
  then have l: "\<exists>w'. slab_list_assign 2 0 0 world_bc = Some (Inr w') \<and> nodes (objs w' 0) = []
       \<and> inuse_items (pool w') = 0"
    using r(1,2) by blast
  have rest: "map snd (nodes (objs world_bc 0)) = [1, 2]" "velems (vecs vworld_123 0) = [1, 2, 3]"
    by (simp_all add: world_bc_def vworld_123_def)
  have cl: "slab_vector_assign 4 0 0 vworld_123 = vector_clear 0 vworld_123"
    using t[THEN conjunct2, THEN conjunct2] cap by blast
  show ?thesis
    by (intro conjI) (fact l rest cl t[THEN conjunct2, THEN conjunct1])+
qed

end
